theory Spec2Isabelle
  imports Main "HOL-Library.Sublist"
begin

section \<open>Python strings\<close>

text \<open>
  A Python \<open>str\<close> is a sequence of Unicode code points; a code point is a natural number.
  The literals of \<open>scripts/clean_and_tag_m3u.py\<close> are written with \<open>py\<close>, their
  non-ASCII characters as numbers: U+0130 (capital I with dot) is 304, U+0131 (dotless i)
  is 305, U+1F3AC (the clapper board) is 127916.
\<close>

type_synonym pystr = "nat list"

definition py :: "string \<Rightarrow> pystr" where
  "py s = map of_char s"

text \<open>
  \<open>str.isspace\<close> on one character, which is also what \<open>str.strip()\<close> removes and what
  \<open>\s\<close> matches in a \<open>str\<close> pattern: the 29 white-space code points of CPython.
\<close>

definition py_isspace :: "nat \<Rightarrow> bool" where
  "py_isspace c \<longleftrightarrow>
     (9 \<le> c \<and> c \<le> 13) \<or> (28 \<le> c \<and> c \<le> 32) \<or> c = 133 \<or> c = 160 \<or> c = 5760 \<or>
     (8192 \<le> c \<and> c \<le> 8202) \<or> c = 8232 \<or> c = 8233 \<or> c = 8239 \<or> c = 8287 \<or> c = 12288"

definition py_lstrip :: "pystr \<Rightarrow> pystr" where
  "py_lstrip s = dropWhile py_isspace s"

definition py_rstrip :: "pystr \<Rightarrow> pystr" where
  "py_rstrip s = rev (dropWhile py_isspace (rev s))"

definition py_strip :: "pystr \<Rightarrow> pystr" where
  "py_strip s = py_rstrip (py_lstrip s)"

text \<open>\<open>s.rstrip(ch)\<close> for a one-character argument: every trailing \<open>ch\<close> is removed.\<close>

definition rstrip_char :: "nat \<Rightarrow> pystr \<Rightarrow> pystr" where
  "rstrip_char ch s = rev (dropWhile (\<lambda>c. c = ch) (rev s))"

definition py_startswith :: "pystr \<Rightarrow> pystr \<Rightarrow> bool" where
  "py_startswith s p \<longleftrightarrow> take (length p) s = p"

fun py_join :: "pystr \<Rightarrow> pystr list \<Rightarrow> pystr" where
  "py_join sep [] = []"
| "py_join sep [p] = p"
| "py_join sep (p # q # ps) = p @ sep @ py_join sep (q # ps)"

text \<open>
  \<open>str.upper()\<close> replaces each character by its full upper-case form, which may be
  longer than one character. \<open>upper_cp\<close> is exact on ASCII and on every other code point
  whose upper-case form contains an ASCII character or U+0130; the remaining code points
  are left as they are. Their real upper-case forms are non-empty and contain neither an
  ASCII character nor U+0130, so no comparison this program makes with an upper-cased
  string (the prefixes \<open>#EXTM3U\<close> and \<open>#EXTINF\<close>, the keys of \<open>DEFAULT_LOGOS\<close>) can
  tell the difference.
\<close>

definition upper_cp :: "nat \<Rightarrow> pystr" where
  "upper_cp c =
     (if 97 \<le> c \<and> c \<le> 122 then [c - 32]
      else if c = 223 then [83, 83]
      else if c = 305 then [73]
      else if c = 329 then [700, 78]
      else if c = 383 then [83]
      else if c = 496 then [74, 780]
      else if c = 7830 then [72, 817]
      else if c = 7831 then [84, 776]
      else if c = 7832 then [87, 778]
      else if c = 7833 then [89, 778]
      else if c = 7834 then [65, 702]
      else if c = 64256 then [70, 70]
      else if c = 64257 then [70, 73]
      else if c = 64258 then [70, 76]
      else if c = 64259 then [70, 70, 73]
      else if c = 64260 then [70, 70, 76]
      else if c = 64261 then [83, 84]
      else if c = 64262 then [83, 84]
      else [c])"

definition py_upper :: "pystr \<Rightarrow> pystr" where
  "py_upper s = concat (map upper_cp s)"

text \<open>
  Python's \<open>x or d\<close> where \<open>x\<close> is \<open>None\<close> or a string and \<open>d\<close> a string: \<open>None\<close> and
  the empty string are false.
\<close>

definition truthy :: "pystr option \<Rightarrow> bool" where
  "truthy x = (case x of None \<Rightarrow> False | Some s \<Rightarrow> s \<noteq> [])"

definition or_else :: "pystr option \<Rightarrow> pystr \<Rightarrow> pystr" where
  "or_else x d = (case x of None \<Rightarrow> d | Some s \<Rightarrow> if s \<noteq> [] then s else d)"

text \<open>\<open>d.setdefault(k, v)\<close> and \<open>d.get(k, v)\<close> on a dictionary of strings.\<close>

definition setdefault :: "(pystr \<rightharpoonup> pystr) \<Rightarrow> pystr \<Rightarrow> pystr \<Rightarrow> (pystr \<rightharpoonup> pystr)" where
  "setdefault d k v = (case d k of None \<Rightarrow> d(k \<mapsto> v) | Some _ \<Rightarrow> d)"

definition get_or :: "(pystr \<rightharpoonup> pystr) \<Rightarrow> pystr \<Rightarrow> pystr \<Rightarrow> pystr" where
  "get_or d k v = (case d k of None \<Rightarrow> v | Some w \<Rightarrow> w)"

section \<open>Regular expressions of the script\<close>

text \<open>
  Case-insensitive matching of one pattern literal (\<open>re.I\<close>, \<open>(?i)\<close>) on a \<open>str\<close>: the
  subject character is lower-cased by the simple lower-case mapping and compared with
  the lower-cased literal and its equivalents (\<open>i\<close> with dotless \<open>i\<close>, \<open>s\<close> with long
  \<open>s\<close>). \<open>sre_lower\<close> is exact on every code point whose lower-case form is an ASCII
  character, U+0131 or U+017F, and the identity elsewhere; the literals of this script
  are ASCII characters, U+0131 and the uncased U+1F3AC, for which this is what
  CPython's matcher computes.
\<close>

definition sre_lower :: "nat \<Rightarrow> nat" where
  "sre_lower c =
     (if 65 \<le> c \<and> c \<le> 90 then c + 32
      else if c = 304 then 105
      else if c = 8490 then 107
      else c)"

definition ignorecase_fixes :: "nat \<Rightarrow> nat list" where
  "ignorecase_fixes lo =
     (if lo = 105 then [305] else if lo = 305 then [105]
      else if lo = 115 then [383] else if lo = 383 then [115] else [])"

definition lit_ignorecase :: "nat \<Rightarrow> nat \<Rightarrow> bool" where
  "lit_ignorecase p c \<longleftrightarrow> sre_lower c \<in> set (sre_lower p # ignorecase_fixes (sre_lower p))"

text \<open>
  The section patterns are alternations of literal sequences, one of them with an
  optional character (\<open>yede?k\<close>). \<open>match_here\<close> says whether one alternative matches at
  the start of the subject, \<open>rx_search\<close> whether \<open>rx.search(s)\<close> finds a match at any
  position (the script only tests the result for truth).
\<close>

datatype atom = Lit nat | Opt nat

type_synonym regex = "atom list list"

definition lits :: "string \<Rightarrow> atom list" where
  "lits s = map (\<lambda>c. Lit (of_char c)) s"

fun match_here :: "atom list \<Rightarrow> pystr \<Rightarrow> bool" where
  "match_here [] s = True"
| "match_here (Lit p # r) [] = False"
| "match_here (Lit p # r) (c # s) = (lit_ignorecase p c \<and> match_here r s)"
| "match_here (Opt p # r) [] = match_here r []"
| "match_here (Opt p # r) (c # s) =
     ((lit_ignorecase p c \<and> match_here r s) \<or> match_here r (c # s))"

fun rx_search :: "regex \<Rightarrow> pystr \<Rightarrow> bool" where
  "rx_search rx [] = list_ex (\<lambda>alt. match_here alt []) rx"
| "rx_search rx (c # s) = (list_ex (\<lambda>alt. match_here alt (c # s)) rx \<or> rx_search rx s)"

text \<open>
  \<open>\w\<close> in a \<open>str\<close> pattern is \<open>str.isalnum\<close> or the underscore. The alphanumeric
  property of the non-ASCII code points is a table of the Unicode database; it is the
  parameter \<open>U\<close> of everything that uses \<open>ATTR_RE\<close>.
\<close>

definition sre_word :: "(nat \<Rightarrow> bool) \<Rightarrow> nat \<Rightarrow> bool" where
  "sre_word U c \<longleftrightarrow>
     (48 \<le> c \<and> c \<le> 57) \<or> (65 \<le> c \<and> c \<le> 90) \<or> (97 \<le> c \<and> c \<le> 122) \<or> c = 95 \<or>
     (128 \<le> c \<and> U c)"

text \<open>
  \<open>ATTR_RE = (\w+?)="(.*?)"\<close> tried at the start of \<open>s\<close>: a non-empty run of word
  characters, then \<open>="\<close>, then the characters up to the next double quote, none of them
  a newline. The result is the key, the value and the text after the closing quote.
\<close>

definition attr_match_at :: "(nat \<Rightarrow> bool) \<Rightarrow> pystr \<Rightarrow> (pystr \<times> pystr \<times> pystr) option" where
  "attr_match_at U s =
     (let key = takeWhile (sre_word U) s in
      if key = [] then None
      else (case dropWhile (sre_word U) s of
              a # b # r \<Rightarrow>
                if a = 61 \<and> b = 34 then
                  (case dropWhile (\<lambda>c. c \<noteq> 34 \<and> c \<noteq> 10) r of
                     [] \<Rightarrow> None
                   | q # rest \<Rightarrow>
                       if q = 34 then Some (key, takeWhile (\<lambda>c. c \<noteq> 34 \<and> c \<noteq> 10) r, rest)
                       else None)
                else None
            | _ \<Rightarrow> None))"

lemma attr_match_at_shorter:
  assumes "attr_match_at U s = Some (k, v, rest)"
  shows "length rest < length s"
proof -
  let ?r = "dropWhile (sre_word U) s"
  from assms obtain r where r: "?r = 61 # 34 # r"
    and d: "dropWhile (\<lambda>c. c \<noteq> 34 \<and> c \<noteq> 10) r = 34 # rest"
    by (auto simp: attr_match_at_def Let_def split: if_splits list.splits)
  have "length (dropWhile (\<lambda>c. c \<noteq> 34 \<and> c \<noteq> 10) r) \<le> length r"
    by (rule length_dropWhile_le)
  with d have "length rest < length r" by simp
  moreover have "length ?r \<le> length s" by (rule length_dropWhile_le)
  with r have "length r < length s" by simp
  ultimately show ?thesis by simp
qed

text \<open>
  \<open>ATTR_RE.findall(line)\<close>: the matches from left to right, each search starting where
  the previous match ended.
\<close>

function attr_findall :: "(nat \<Rightarrow> bool) \<Rightarrow> pystr \<Rightarrow> (pystr \<times> pystr) list" where
  "attr_findall U s =
     (if s = [] then []
      else (case attr_match_at U s of
              Some (k, v, rest) \<Rightarrow> (k, v) # attr_findall U rest
            | None \<Rightarrow> attr_findall U (tl s)))"
  by pat_completeness auto
termination
  by (relation "measure (\<lambda>(U, s). length s)") (auto dest: attr_match_at_shorter)

declare attr_findall.simps [simp del]

text \<open>\<open>dict(pairs)\<close>: a later pair replaces an earlier one with the same key.\<close>

definition dict_of :: "(pystr \<times> pystr) list \<Rightarrow> (pystr \<rightharpoonup> pystr)" where
  "dict_of pairs = map_of (rev pairs)"

text \<open>
  \<open>EXTINF_RE = ^(?P<prefix>#EXTINF[^,]*,)(?P<title>.*)$\<close> with \<open>re.I\<close>, applied with
  \<open>match\<close>: the result is the \<open>title\<close> group, or \<open>None\<close> when the line does not match.
  The prefix ends at the first comma; \<open>.\<close> does not match a newline and \<open>$\<close> matches at
  the end of the string or before a newline that ends it.
\<close>

definition extinf_title :: "pystr \<Rightarrow> pystr option" where
  "extinf_title line =
     (if 7 \<le> length line \<and> list_all2 lit_ignorecase (py ''#EXTINF'') (take 7 line) then
        (case dropWhile (\<lambda>c. c \<noteq> 44) (drop 7 line) of
           [] \<Rightarrow> None
         | comma # t \<Rightarrow>
             (let r = dropWhile (\<lambda>c. c \<noteq> 10) t in
              if r = [] \<or> r = [10] then Some (takeWhile (\<lambda>c. c \<noteq> 10) t) else None))
      else None)"

section \<open>The functions of the script\<close>

text \<open>\<open>re.sub(r"\s+", '.', s)\<close>: every maximal run of white space becomes one full stop.\<close>

function re_sub_spaces :: "pystr \<Rightarrow> pystr" where
  "re_sub_spaces [] = []"
| "re_sub_spaces (c # s) =
     (if py_isspace c then 46 # re_sub_spaces (dropWhile py_isspace s)
      else c # re_sub_spaces s)"
  by pat_completeness auto
termination
  by (relation "measure length") (auto simp: less_Suc_eq_le length_dropWhile_le)

text \<open>The characters kept by \<open>re.sub(r"[^A-Za-z0-9._-]", '', s)\<close>.\<close>

definition id_char :: "nat \<Rightarrow> bool" where
  "id_char c \<longleftrightarrow>
     (65 \<le> c \<and> c \<le> 90) \<or> (97 \<le> c \<and> c \<le> 122) \<or> (48 \<le> c \<and> c \<le> 57) \<or>
     c = 46 \<or> c = 95 \<or> c = 45"

definition sanitize_id :: "pystr \<Rightarrow> pystr" where
  "sanitize_id name =
     (let s = py_strip name;
          s = re_sub_spaces s;
          s = filter id_char s
      in if s \<noteq> [] then s else py ''unknown'')"

definition logo_hizli :: pystr where
  "logo_hizli = py ''https://i.hizliresim.com/i21k4te.png''"

definition SINEMALAR :: pystr where
  "SINEMALAR = py ''S'' @ [304] @ py ''NEMALAR''"

definition FILMLER :: pystr where
  "FILMLER = py ''F'' @ [304] @ py ''LMLER''"

definition DEFAULT_LOGOS :: "(pystr \<times> pystr) list" where
  "DEFAULT_LOGOS =
     [(SINEMALAR, logo_hizli),
      (FILMLER, logo_hizli),
      (py ''F'' @ [304] @ py ''LM'', logo_hizli),
      (py ''BELGESEL'',
         py ''https://upload.wikimedia.org/wikipedia/commons/1/1b/Documentary_icon.png''),
      (py ''YEDEK'', logo_hizli),
      (py ''7/24'', logo_hizli),
      (py ''DEFAULT'', logo_hizli)]"

text \<open>\<open>DEFAULT_LOGOS.get(k, DEFAULT_LOGOS['DEFAULT'])\<close>.\<close>

definition default_logo :: "pystr \<Rightarrow> pystr" where
  "default_logo k =
     (case map_of DEFAULT_LOGOS k of
        Some v \<Rightarrow> v
      | None \<Rightarrow> (case map_of DEFAULT_LOGOS (py ''DEFAULT'') of Some v \<Rightarrow> v | None \<Rightarrow> []))"

definition SECTION_KEYWORDS :: "(pystr \<times> regex) list" where
  "SECTION_KEYWORDS =
     [(SINEMALAR, [lits ''sinema'', lits ''filmler'', lits ''sinemalar'']),
      (py ''BELGESEL'', [lits ''belgesel'', lits ''belgeseller'', lits ''documentary'']),
      (py ''YEDEK'', [lits ''yed'' @ [Opt 101] @ lits ''k'', lits ''yedekler'']),
      (py ''7/24'',
         [lits ''7/24'', lits ''7/24 yay'' @ [Lit 305] @ lits ''n'', lits ''7/24 yayin'']),
      (FILMLER, [lits ''filmler'', lits ''filmler '' @ [Lit 127916], lits ''filmler''])]"

definition parse_extinf_attrs :: "(nat \<Rightarrow> bool) \<Rightarrow> pystr \<Rightarrow> (pystr \<rightharpoonup> pystr) \<times> pystr" where
  "parse_extinf_attrs U line =
     (let attrs = dict_of (attr_findall U line);
          title = (case extinf_title line of Some t \<Rightarrow> py_strip t | None \<Rightarrow> [])
      in (attrs, title))"

text \<open>The loop of \<open>build_extinf\<close> over the four keys, in the order of the tuple.\<close>

fun build_parts :: "(pystr \<rightharpoonup> pystr) \<Rightarrow> pystr list \<Rightarrow> pystr list" where
  "build_parts attrs [] = []"
| "build_parts attrs (k # ks) =
     (if truthy (attrs k)
      then (k @ [61, 34] @ the (attrs k) @ [34]) # build_parts attrs ks
      else build_parts attrs ks)"

definition attr_order :: "pystr list" where
  "attr_order = [py ''tvg-id'', py ''tvg-name'', py ''tvg-logo'', py ''group-title'']"

definition build_extinf :: "(pystr \<rightharpoonup> pystr) \<Rightarrow> pystr \<Rightarrow> pystr" where
  "build_extinf attrs title =
     (let parts = build_parts attrs attr_order;
          joined = py_join [32] parts
      in py ''#EXTINF:-1 '' @ joined @ [44] @ title)"

text \<open>The loop of \<open>detect_section_from_extinf\<close>: the key of the first pattern found.\<close>

fun first_section :: "(pystr \<times> regex) list \<Rightarrow> pystr \<Rightarrow> pystr option" where
  "first_section [] title = None"
| "first_section ((key, rx) # kws) title =
     (if rx_search rx title then Some key else first_section kws title)"

definition detect_section_from_extinf :: "(nat \<Rightarrow> bool) \<Rightarrow> pystr \<Rightarrow> pystr option" where
  "detect_section_from_extinf U line =
     (let (attrs, title) = parse_extinf_attrs U line
      in first_section SECTION_KEYWORDS title)"

text \<open>
  \<open>normalize_lines\<close>: the \<open>for\<close> loop with its two variables \<open>out\<close> and \<open>prev_blank\<close>,
  then the \<open>while\<close> loop that pops trailing blank lines.
\<close>

fun normalize_loop :: "pystr list \<Rightarrow> pystr list \<Rightarrow> bool \<Rightarrow> pystr list" where
  "normalize_loop [] out prev_blank = out"
| "normalize_loop (l # ls) out prev_blank =
     (let s = rstrip_char 13 (rstrip_char 10 l) in
      if py_strip s = [] then
        normalize_loop ls (if \<not> prev_blank then out @ [[]] else out) True
      else normalize_loop ls (out @ [py_strip s]) False)"

function pop_blank :: "pystr list \<Rightarrow> pystr list" where
  "pop_blank out = (if out \<noteq> [] \<and> last out = [] then pop_blank (butlast out) else out)"
  by pat_completeness auto
termination
  by (relation "measure length") (auto simp: less_Suc_eq_le intro: diff_less)

declare pop_blank.simps [simp del]

definition normalize_lines :: "pystr list \<Rightarrow> pystr list" where
  "normalize_lines lines = pop_blank (normalize_loop lines [] False)"

section \<open>The normalization pass of \<open>main\<close>\<close>

text \<open>
  The variables of the \<open>while\<close> loop of \<open>main\<close>: the index \<open>i\<close>, \<open>current_group\<close> and
  \<open>out_lines\<close>. The list \<open>lines\<close> is not changed by the loop.
\<close>

record loop_state =
  idx :: nat
  current_group :: "pystr option"
  out_lines :: "pystr list"

text \<open>The inner loop \<open>while j < len(lines) and lines[j].startswith('#'): j += 1\<close>.\<close>

function scan_url :: "pystr list \<Rightarrow> nat \<Rightarrow> nat" where
  "scan_url lines j =
     (if j < length lines \<and> py_startswith (lines ! j) (py ''#'') then scan_url lines (j + 1)
      else j)"
  by pat_completeness auto
termination
  by (relation "measure (\<lambda>(lines, j). length lines - j)") auto

declare scan_url.simps [simp del]

lemma scan_url_ge: "j \<le> scan_url lines j"
proof (induction lines j rule: scan_url.induct)
  case (1 lines j)
  show ?case
  proof (cases "j < length lines \<and> py_startswith (lines ! j) (py ''#'')")
    case True
    with 1 have "j + 1 \<le> scan_url lines (j + 1)" by blast
    moreover from True have "scan_url lines j = scan_url lines (j + 1)"
      by (subst scan_url.simps) simp
    ultimately show ?thesis by simp
  next
    case False
    then have "scan_url lines j = j" by (subst scan_url.simps) auto
    then show ?thesis by simp
  qed
qed

text \<open>
  The branch of a section marker (\<open>if sec:\<close>), the branch of an ordinary entry, and one
  iteration of the loop body. Every read \<open>lines[k]\<close> is guarded by \<open>k < len(lines)\<close> in
  the source, the first one by the loop condition.
\<close>

definition section_step :: "pystr list \<Rightarrow> loop_state \<Rightarrow> (pystr \<rightharpoonup> pystr) \<Rightarrow> pystr \<Rightarrow> pystr \<Rightarrow> loop_state" where
  "section_step lines st attrs title sec =
     (let i = idx st;
          attrs = setdefault attrs (py ''tvg-name'') title;
          attrs = setdefault attrs (py ''group-title'') sec;
          attrs = setdefault attrs (py ''tvg-logo'') (default_logo sec);
          attrs = setdefault attrs (py ''tvg-id'') (sanitize_id title);
          out = out_lines st @ [build_extinf attrs title];
          j = i + 1
      in if j < length lines \<and> \<not> py_startswith (py_upper (lines ! j)) (py ''#EXTINF'')
         then \<lparr>idx = j + 1, current_group = Some sec, out_lines = out @ [lines ! j]\<rparr>
         else \<lparr>idx = i + 1, current_group = Some sec, out_lines = out\<rparr>)"

definition entry_step :: "pystr list \<Rightarrow> loop_state \<Rightarrow> (pystr \<rightharpoonup> pystr) \<Rightarrow> pystr \<Rightarrow> loop_state" where
  "entry_step lines st attrs title =
     (let i = idx st;
          j = scan_url lines (i + 1);
          url = (if j < length lines then Some (lines ! j) else None);
          group = or_else (attrs (py ''group-title'')) (or_else (current_group st) (py ''DEFAULT''));
          attrs = setdefault attrs (py ''group-title'') group;
          name = or_else (attrs (py ''tvg-name'')) (or_else (Some title) (or_else url []));
          attrs = setdefault attrs (py ''tvg-name'') name;
          attrs = setdefault attrs (py ''tvg-id'') (sanitize_id (get_or attrs (py ''tvg-name'') []));
          attrs = (if \<not> truthy (attrs (py ''tvg-logo''))
                   then attrs(py ''tvg-logo'' \<mapsto> default_logo (py_upper group))
                   else attrs);
          out = out_lines st @ [build_extinf attrs (get_or attrs (py ''tvg-name'') (py ''None''))]
      in if truthy url
         then \<lparr>idx = j + 1, current_group = current_group st, out_lines = out @ [the url]\<rparr>
         else \<lparr>idx = j, current_group = current_group st, out_lines = out\<rparr>)"

definition main_step :: "(nat \<Rightarrow> bool) \<Rightarrow> pystr list \<Rightarrow> loop_state \<Rightarrow> loop_state" where
  "main_step U lines st =
     (let i = idx st; line = lines ! i in
      if py_startswith (py_upper line) (py ''#EXTM3U'') then
        st\<lparr>idx := i + 1, out_lines := out_lines st @ [py ''#EXTM3U'']\<rparr>
      else if py_startswith (py_upper line) (py ''#EXTINF'') then
        (let (attrs, title) = parse_extinf_attrs U line;
             sec = detect_section_from_extinf U line
         in if truthy sec then section_step lines st attrs title (the sec)
            else entry_step lines st attrs title)
      else st\<lparr>idx := i + 1, out_lines := out_lines st @ [line]\<rparr>)"

lemma entry_step_advances: "idx st < idx (entry_step lines st attrs title)"
proof -
  have "idx st + 1 \<le> scan_url lines (idx st + 1)" by (rule scan_url_ge)
  then show ?thesis
    unfolding entry_step_def Let_def by (simp split: if_splits)
qed

lemma section_step_advances: "idx st < idx (section_step lines st attrs title sec)"
  unfolding section_step_def Let_def by (simp split: if_splits)

lemma main_step_advances: "idx st < idx (main_step U lines st)"
  unfolding main_step_def Let_def
  by (simp add: entry_step_advances section_step_advances split: prod.splits)

function main_loop :: "(nat \<Rightarrow> bool) \<Rightarrow> pystr list \<Rightarrow> loop_state \<Rightarrow> loop_state" where
  "main_loop U lines st =
     (if idx st < length lines then main_loop U lines (main_step U lines st) else st)"
  by pat_completeness auto
termination
proof (relation "measure (\<lambda>(U, lines, st). length lines - idx st)")
  show "wf (measure (\<lambda>(U, lines, st). length lines - idx st))" by simp
next
  fix U :: "nat \<Rightarrow> bool" and lines :: "pystr list" and st :: loop_state
  assume "idx st < length lines"
  moreover have "idx st < idx (main_step U lines st)" by (rule main_step_advances)
  ultimately show "((U, lines, main_step U lines st), (U, lines, st))
      \<in> measure (\<lambda>(U, lines, st). length lines - idx st)"
    by simp
qed

declare main_loop.simps [simp del]

text \<open>
  The pass of \<open>main\<close> between reading the file and writing the result: \<open>raw\<close> is the list
  returned by \<open>readlines()\<close>, the result is the list \<open>out_lines\<close> that is written out.
\<close>

definition init_state :: loop_state where
  "init_state = \<lparr>idx = 0, current_group = None, out_lines = []\<rparr>"

definition entry_pass :: "(nat \<Rightarrow> bool) \<Rightarrow> pystr list \<Rightarrow> pystr list" where
  "entry_pass U lines = out_lines (main_loop U lines init_state)"

definition main :: "(nat \<Rightarrow> bool) \<Rightarrow> pystr list \<Rightarrow> pystr list" where
  "main U raw = entry_pass U (normalize_lines raw)"

section \<open>The loop as a function of the lines still to be read\<close>

text \<open>
  The tests of the loop body on one line, the title that \<open>parse_extinf_attrs\<close> returns
  (it does not depend on the attributes), and the metadata line that is built from a
  name, a group and a logo when the dictionary holds none of the four keys before it is
  filled: \<open>tvg-id\<close> is then the sanitized name, and the title written after the comma is
  the name.
\<close>

definition is_m3u :: "pystr \<Rightarrow> bool" where
  "is_m3u l \<longleftrightarrow> py_startswith (py_upper l) (py ''#EXTM3U'')"

definition is_inf :: "pystr \<Rightarrow> bool" where
  "is_inf l \<longleftrightarrow> py_startswith (py_upper l) (py ''#EXTINF'')"

definition is_hash :: "pystr \<Rightarrow> bool" where
  "is_hash l \<longleftrightarrow> py_startswith l (py ''#'')"

definition title_of :: "pystr \<Rightarrow> pystr" where
  "title_of line = (case extinf_title line of Some t \<Rightarrow> py_strip t | None \<Rightarrow> [])"

definition section_of :: "pystr \<Rightarrow> pystr option" where
  "section_of line = first_section SECTION_KEYWORDS (title_of line)"

definition canon :: "pystr \<Rightarrow> pystr \<Rightarrow> pystr \<Rightarrow> pystr" where
  "canon name grp logo =
     build_extinf
       (Map.empty(py ''tvg-id'' \<mapsto> sanitize_id name, py ''tvg-name'' \<mapsto> name,
                  py ''tvg-logo'' \<mapsto> logo, py ''group-title'' \<mapsto> grp))
       name"

definition section_line :: "pystr \<Rightarrow> pystr \<Rightarrow> pystr" where
  "section_line l sec = canon (title_of l) sec (default_logo sec)"

definition entry_name :: "pystr \<Rightarrow> pystr list \<Rightarrow> pystr" where
  "entry_name l rest =
     or_else (Some (title_of l)) (case rest of [] \<Rightarrow> [] | u # r \<Rightarrow> u)"

definition entry_line :: "pystr option \<Rightarrow> pystr \<Rightarrow> pystr list \<Rightarrow> pystr" where
  "entry_line cur l rest =
     canon (entry_name l rest) (or_else cur (py ''DEFAULT''))
       (default_logo (py_upper (or_else cur (py ''DEFAULT''))))"

text \<open>
  The output of the loop from a given position, as a function of \<open>current_group\<close> and
  of the lines from that position on. It is shown below to be what \<open>main_loop\<close> appends
  to \<open>out_lines\<close>.
\<close>

function pass :: "pystr option \<Rightarrow> pystr list \<Rightarrow> pystr list" where
  "pass cur [] = []"
| "pass cur (l # ls) =
     (if is_m3u l then py ''#EXTM3U'' # pass cur ls
      else if is_inf l then
        (case section_of l of
           Some sec \<Rightarrow>
             section_line l sec #
             (case ls of
                [] \<Rightarrow> []
              | m # ls' \<Rightarrow> if is_inf m then pass (Some sec) (m # ls') else m # pass (Some sec) ls')
         | None \<Rightarrow>
             entry_line cur l (dropWhile is_hash ls) #
             (case dropWhile is_hash ls of
                [] \<Rightarrow> []
              | u # r \<Rightarrow> if u = [] then pass cur (u # r) else u # pass cur r))
      else l # pass cur ls)"
  by pat_completeness auto
termination
proof -
  have d: "\<And>P (ls :: pystr list) u r. dropWhile P ls = u # r \<Longrightarrow> length r < length ls"
  proof -
    fix P and ls :: "pystr list" and u r
    assume e: "dropWhile P ls = u # r"
    have "length (dropWhile P ls) \<le> length ls" by (rule length_dropWhile_le)
    with e show "length r < length ls" by simp
  qed
  show ?thesis
    by (relation "measure (\<lambda>(cur, ls). length ls)") (auto simp: less_Suc_eq dest: d)
qed

declare pass.simps(2) [simp del]


text \<open>
  Where a line of the output comes from: it is the literal header, or a line of the input
  that is not a metadata line, or the line built for a metadata line \<open>l\<close> of the input,
  as a section marker or as an ordinary entry with the lines \<open>ls\<close> after it.
\<close>

definition origin :: "pystr \<Rightarrow> pystr list \<Rightarrow> bool" where
  "origin m xs \<longleftrightarrow>
     m = py ''#EXTM3U'' \<or> (m \<in> set xs \<and> \<not> is_inf m) \<or>
     (\<exists>pre l ls. xs = pre @ l # ls \<and> is_inf l \<and>
        ((\<exists>sec. section_of l = Some sec \<and> m = section_line l sec) \<or>
         (\<exists>cur. section_of l = None \<and> m = entry_line cur l (dropWhile is_hash ls))))"

text \<open>The values that \<open>current_group\<close> takes: \<open>None\<close> or a key of \<open>SECTION_KEYWORDS\<close>.\<close>

definition valid_group :: "pystr option \<Rightarrow> bool" where
  "valid_group cur \<longleftrightarrow> cur = None \<or> (\<exists>sec\<in>fst ` set SECTION_KEYWORDS. cur = Some sec)"

text \<open>
  The inputs on which a second pass reads every title as the first pass wrote it: each
  metadata line has a title, and the title has no comma.
\<close>

definition plain_titles :: "pystr list \<Rightarrow> bool" where
  "plain_titles xs \<longleftrightarrow> (\<forall>l\<in>set xs. is_inf l \<longrightarrow> title_of l \<noteq> [] \<and> 44 \<notin> set (title_of l))"

section \<open>Definitions that follow the words of the specification\<close>

text \<open>
  The sanitization rule as the specification words it: the maximal runs of white space
  and of other characters, each run of white space replaced by one full stop, and the
  characters that are kept.
\<close>

fun runs :: "('a \<Rightarrow> bool) \<Rightarrow> 'a list \<Rightarrow> 'a list list" where
  "runs P [] = []"
| "runs P (x # xs) =
     (case runs P xs of
        [] \<Rightarrow> [[x]]
      | r # rs \<Rightarrow> if P x = P (hd r) then (x # r) # rs else [x] # r # rs)"

declare runs.simps(2) [simp del]

definition spec_dots :: "pystr \<Rightarrow> pystr" where
  "spec_dots s = concat (map (\<lambda>r. if py_isspace (hd r) then [46] else r) (runs py_isspace s))"

definition ascii_letter :: "nat \<Rightarrow> bool" where
  "ascii_letter c \<longleftrightarrow>
     (of_char CHR ''A'' \<le> c \<and> c \<le> of_char CHR ''Z'') \<or> (of_char CHR ''a'' \<le> c \<and> c \<le> of_char CHR ''z'')"

definition ascii_digit :: "nat \<Rightarrow> bool" where
  "ascii_digit c \<longleftrightarrow> of_char CHR ''0'' \<le> c \<and> c \<le> of_char CHR ''9''"

definition spec_sanitize_id :: "pystr \<Rightarrow> pystr" where
  "spec_sanitize_id name =
     (let kept = filter (\<lambda>c. ascii_letter c \<or> ascii_digit c \<or> c \<in> set (py ''._-''))
                   (spec_dots (py_strip name))
      in if kept = [] then py ''unknown'' else kept)"

text \<open>
  The blank-line rule of the Line Normalizer: a blank line that follows a blank line is
  dropped (\<open>pb\<close> says that the previous line was blank), and the property that no two
  consecutive lines are blank.
\<close>

fun collapse :: "bool \<Rightarrow> pystr list \<Rightarrow> pystr list" where
  "collapse pb [] = []"
| "collapse pb (l # ls) =
     (if l = [] then (if pb then collapse True ls else [] # collapse True ls)
      else l # collapse False ls)"

fun no_double_blank :: "pystr list \<Rightarrow> bool" where
  "no_double_blank (a # b # ls) = (\<not> (a = [] \<and> b = []) \<and> no_double_blank (b # ls))"
| "no_double_blank ls = True"

text \<open>
  The shape of a metadata line in the words of the specification: the pairs in the fixed
  order, a key left out when its value is absent.
\<close>

definition spec_build_extinf :: "(pystr \<rightharpoonup> pystr) \<Rightarrow> pystr \<Rightarrow> pystr" where
  "spec_build_extinf attrs title =
     py ''#EXTINF:-1 '' @
     py_join (py '' '')
       (map (\<lambda>k. k @ py ''='' @ [34] @ the (attrs k) @ [34])
          (filter (\<lambda>k. attrs k \<noteq> None)
             [py ''tvg-id'', py ''tvg-name'', py ''tvg-logo'', py ''group-title''])) @
     py '','' @ title"

text \<open>
  What \<open>normalize_lines\<close> leaves alone, beside stripped lines: no two consecutive blank
  lines and no blank line at the end.
\<close>

definition tidy :: "pystr list \<Rightarrow> bool" where
  "tidy xs \<longleftrightarrow> no_double_blank xs \<and> (xs \<noteq> [] \<longrightarrow> last xs \<noteq> [])"

section \<open>Evaluation on concrete inputs\<close>

lemmas str_eval = py_def py_upper_def upper_cp_def py_startswith_def py_strip_def py_lstrip_def
  py_rstrip_def py_isspace_def rstrip_char_def

lemmas rx_eval = lit_ignorecase_def sre_lower_def ignorecase_fixes_def lits_def sre_word_def
  attr_match_at_def attr_findall.simps dict_of_def extinf_title_def

lemmas fn_eval = sanitize_id_def id_char_def logo_hizli_def SINEMALAR_def FILMLER_def
  DEFAULT_LOGOS_def default_logo_def SECTION_KEYWORDS_def parse_extinf_attrs_def attr_order_def
  build_extinf_def detect_section_from_extinf_def normalize_lines_def pop_blank.simps
  truthy_def or_else_def setdefault_def get_or_def

lemmas main_eval = main_def entry_pass_def init_state_def main_loop.simps main_step_def
  section_step_def entry_step_def scan_url.simps

lemmas pass_eval = is_m3u_def is_inf_def is_hash_def title_of_def section_of_def canon_def
  section_line_def entry_name_def entry_line_def pass.simps

section \<open>The sanitization rule\<close>

lemma runs_Cons:
  "runs P (x # xs) =
     (if P x then (x # takeWhile P xs) # runs P (dropWhile P xs)
      else (x # takeWhile (\<lambda>y. \<not> P y) xs) # runs P (dropWhile (\<lambda>y. \<not> P y) xs))"
proof (induction xs arbitrary: x)
  case Nil
  show ?case by (simp add: runs.simps(2))
next
  case (Cons y ys)
  have "runs P (x # y # ys) =
      (case runs P (y # ys) of
         [] \<Rightarrow> [[x]]
       | r # rs \<Rightarrow> if P x = P (hd r) then (x # r) # rs else [x] # r # rs)"
    by (rule runs.simps(2))
  also have "\<dots> =
      (if P x then (x # takeWhile P (y # ys)) # runs P (dropWhile P (y # ys))
       else (x # takeWhile (\<lambda>y. \<not> P y) (y # ys)) # runs P (dropWhile (\<lambda>y. \<not> P y) (y # ys)))"
    unfolding Cons.IH by (cases "P x"; cases "P y") (simp_all add: Cons.IH)
  finally show ?case .
qed

lemma spec_dots_Nil: "spec_dots [] = []"
  by (simp add: spec_dots_def)

lemma spec_dots_space:
  "py_isspace c \<Longrightarrow> spec_dots (c # s) = 46 # spec_dots (dropWhile py_isspace s)"
  by (simp add: spec_dots_def runs_Cons)

lemma spec_dots_split:
  "spec_dots s =
     takeWhile (\<lambda>y. \<not> py_isspace y) s @ spec_dots (dropWhile (\<lambda>y. \<not> py_isspace y) s)"
proof (cases s)
  case Nil
  then show ?thesis by simp
next
  case (Cons y ys)
  show ?thesis
  proof (cases "py_isspace y")
    case True
    with Cons show ?thesis by simp
  next
    case False
    with Cons show ?thesis by (simp add: spec_dots_def runs_Cons)
  qed
qed

lemma spec_dots_other: "\<not> py_isspace c \<Longrightarrow> spec_dots (c # s) = c # spec_dots s"
proof -
  assume c: "\<not> py_isspace c"
  have "spec_dots (c # s) =
      takeWhile (\<lambda>y. \<not> py_isspace y) (c # s) @ spec_dots (dropWhile (\<lambda>y. \<not> py_isspace y) (c # s))"
    by (rule spec_dots_split)
  also have "\<dots> = c # (takeWhile (\<lambda>y. \<not> py_isspace y) s @ spec_dots (dropWhile (\<lambda>y. \<not> py_isspace y) s))"
    using c by simp
  also have "\<dots> = c # spec_dots s"
    by (simp only: spec_dots_split[symmetric])
  finally show ?thesis .
qed

lemma re_sub_spaces_spec: "re_sub_spaces s = spec_dots s"
  by (induction s rule: re_sub_spaces.induct)
    (simp_all add: spec_dots_Nil spec_dots_space spec_dots_other)

lemma id_char_spec:
  "(\<lambda>c. ascii_letter c \<or> ascii_digit c \<or> c \<in> set (py ''._-'')) = id_char"
  by (rule ext) (auto simp: id_char_def ascii_letter_def ascii_digit_def py_def)

text \<open>
  Claim C5. For every input string, \<open>sanitize_id\<close> is what the specification describes:
  the string is trimmed, each maximal run of white space becomes one full stop, every
  character that is not an ASCII letter, a digit, a full stop, an underscore or a hyphen
  is removed, and an empty result is replaced by \<open>unknown\<close>. In particular
  \<open>sanitize_id("")\<close> is \<open>unknown\<close>.
\<close>

theorem sanitize_id_refines_spec:
  "sanitize_id name = spec_sanitize_id name \<and> sanitize_id [] = py ''unknown''"
proof
  show "sanitize_id name = spec_sanitize_id name"
    unfolding sanitize_id_def spec_sanitize_id_def re_sub_spaces_spec id_char_spec Let_def
    by simp
  show "sanitize_id [] = py ''unknown''"
    by (simp add: sanitize_id_def py_strip_def py_lstrip_def py_rstrip_def)
qed

section \<open>The Line Normalizer\<close>

lemma dropWhile_rev_append_all:
  "\<forall>c\<in>set w. P c \<Longrightarrow> rev (dropWhile P (rev (a @ w))) = rev (dropWhile P (rev a))"
  using dropWhile_append2[of "rev w" P "rev a"] by simp

lemma rstrip_char_decomp: "\<exists>w. s = rstrip_char ch s @ w \<and> (\<forall>c\<in>set w. c = ch)"
proof -
  have "rev s = takeWhile (\<lambda>c. c = ch) (rev s) @ dropWhile (\<lambda>c. c = ch) (rev s)"
    by simp
  then have "s = rev (dropWhile (\<lambda>c. c = ch) (rev s)) @ rev (takeWhile (\<lambda>c. c = ch) (rev s))"
    by (metis rev_append rev_rev_ident)
  moreover have "\<forall>c\<in>set (rev (takeWhile (\<lambda>c. c = ch) (rev s))). c = ch"
    by (auto dest: set_takeWhileD)
  ultimately show ?thesis unfolding rstrip_char_def by blast
qed

lemma py_strip_append_space:
  assumes "\<forall>c\<in>set w. py_isspace c"
  shows "py_strip (a @ w) = py_strip a"
proof (cases "\<forall>c\<in>set a. py_isspace c")
  case True
  with assms have e: "dropWhile py_isspace (a @ w) = []" "dropWhile py_isspace a = []"
    by auto
  show ?thesis unfolding py_strip_def py_lstrip_def py_rstrip_def e by simp
next
  case False
  then have e: "dropWhile py_isspace (a @ w) = dropWhile py_isspace a @ w"
    by (auto simp: dropWhile_append1)
  show ?thesis
    unfolding py_strip_def py_lstrip_def py_rstrip_def e
    using assms by (rule dropWhile_rev_append_all)
qed

lemma py_strip_line_ending: "py_strip (rstrip_char 13 (rstrip_char 10 l)) = py_strip l"
proof -
  obtain w1 where w1: "l = rstrip_char 10 l @ w1" "\<forall>c\<in>set w1. c = 10"
    using rstrip_char_decomp by blast
  obtain w2 where w2: "rstrip_char 10 l = rstrip_char 13 (rstrip_char 10 l) @ w2"
    "\<forall>c\<in>set w2. c = 13"
    using rstrip_char_decomp by blast
  have sp1: "\<forall>c\<in>set w1. py_isspace c" using w1(2) by (auto simp: py_isspace_def)
  have sp2: "\<forall>c\<in>set w2. py_isspace c" using w2(2) by (auto simp: py_isspace_def)
  have "py_strip l = py_strip (rstrip_char 10 l @ w1)"
    using w1(1) by (rule arg_cong)
  also have "\<dots> = py_strip (rstrip_char 10 l)"
    by (rule py_strip_append_space[OF sp1])
  also have "\<dots> = py_strip (rstrip_char 13 (rstrip_char 10 l) @ w2)"
    using w2(1) by (rule arg_cong)
  also have "\<dots> = py_strip (rstrip_char 13 (rstrip_char 10 l))"
    by (rule py_strip_append_space[OF sp2])
  finally show ?thesis by simp
qed

lemma normalize_loop_collapse:
  "normalize_loop ls out pb = out @ collapse pb (map py_strip ls)"
  by (induction ls arbitrary: out pb) (simp_all add: py_strip_line_ending Let_def)

lemma pop_blank_eq: "pop_blank out = rev (dropWhile (\<lambda>l. l = []) (rev out))"
proof (induction out rule: pop_blank.induct)
  case (1 out)
  show ?case
  proof (cases "out \<noteq> [] \<and> last out = []")
    case True
    then obtain b where b: "out = b @ [[]]" by (cases out rule: rev_cases) auto
    have "pop_blank out = pop_blank (butlast out)"
      using True by (subst pop_blank.simps) simp
    also have "\<dots> = rev (dropWhile (\<lambda>l. l = []) (rev (butlast out)))"
      using 1 True by blast
    also have "\<dots> = rev (dropWhile (\<lambda>l. l = []) (rev out))"
      unfolding b by simp
    finally show ?thesis .
  next
    case False
    then have "dropWhile (\<lambda>l. l = []) (rev out) = rev out"
      by (cases out rule: rev_cases) auto
    with False show ?thesis by (subst pop_blank.simps) auto
  qed
qed

lemma rev_dropWhile_decomp: "\<exists>w. s = rev (dropWhile P (rev s)) @ w \<and> (\<forall>c\<in>set w. P c)"
proof -
  have "rev s = takeWhile P (rev s) @ dropWhile P (rev s)" by simp
  then have "s = rev (dropWhile P (rev s)) @ rev (takeWhile P (rev s))"
    by (metis rev_append rev_rev_ident)
  moreover have "\<forall>c\<in>set (rev (takeWhile P (rev s))). P c"
    by (auto dest: set_takeWhileD)
  ultimately show ?thesis by blast
qed

lemma rev_dropWhile_last:
  assumes "rev (dropWhile P (rev s)) \<noteq> []"
  shows "\<not> P (last (rev (dropWhile P (rev s))))"
proof -
  from assms have d: "dropWhile P (rev s) \<noteq> []" by simp
  then have "\<not> P (hd (dropWhile P (rev s)))" by (rule hd_dropWhile)
  with d show ?thesis by (simp add: last_rev)
qed

lemma py_strip_Nil: "py_strip [] = []"
  by (simp add: py_strip_def py_lstrip_def py_rstrip_def)

lemma py_strip_ends:
  assumes "py_strip s \<noteq> []"
  shows "\<not> py_isspace (hd (py_strip s)) \<and> \<not> py_isspace (last (py_strip s))"
proof -
  let ?t = "dropWhile py_isspace s"
  let ?d = "dropWhile py_isspace (rev ?t)"
  have u: "py_strip s = rev ?d" by (simp add: py_strip_def py_lstrip_def py_rstrip_def)
  with assms have d: "?d \<noteq> []" by simp
  then have t: "?t \<noteq> []" by (metis dropWhile.simps(1) rev.simps(1))
  have "\<not> py_isspace (last (py_strip s))"
    using assms rev_dropWhile_last[of py_isspace ?t] unfolding u by simp
  moreover have "rev ?t = takeWhile py_isspace (rev ?t) @ ?d" by simp
  then have "last (rev ?t) = last ?d" using d by (metis last_appendR)
  then have "hd (py_strip s) = hd ?t" using d t unfolding u by (simp add: hd_rev last_rev)
  then have "\<not> py_isspace (hd (py_strip s))" using t hd_dropWhile[of py_isspace s] by simp
  ultimately show ?thesis by simp
qed

lemma py_strip_fixed:
  assumes "s = [] \<or> (\<not> py_isspace (hd s) \<and> \<not> py_isspace (last s))"
  shows "py_strip s = s"
proof (cases "s = []")
  case True
  then show ?thesis by (simp add: py_strip_Nil)
next
  case False
  with assms have h: "\<not> py_isspace (hd s)" and l: "\<not> py_isspace (last s)" by auto
  from False h have "dropWhile py_isspace s = s" by (cases s) auto
  moreover from False l have "dropWhile py_isspace (rev s) = rev s"
    by (cases s rule: rev_cases) auto
  ultimately show ?thesis by (simp add: py_strip_def py_lstrip_def py_rstrip_def)
qed

lemma py_strip_idem: "py_strip (py_strip s) = py_strip s"
  using py_strip_ends[of s] by (intro py_strip_fixed) blast

lemma subseq_collapse: "subseq (collapse pb xs) xs"
  by (induction xs arbitrary: pb) auto

lemma filter_collapse: "filter (\<lambda>l. l \<noteq> []) (collapse pb xs) = filter (\<lambda>l. l \<noteq> []) xs"
  by (induction xs arbitrary: pb) auto

lemma collapse_after_blank: "collapse True xs = [] \<or> hd (collapse True xs) \<noteq> []"
  by (induction xs) auto

lemma no_double_blank_Cons:
  "no_double_blank (a # ls) \<longleftrightarrow> (a = [] \<longrightarrow> ls = [] \<or> hd ls \<noteq> []) \<and> no_double_blank ls"
  by (cases ls) auto

lemma no_double_blank_collapse: "no_double_blank (collapse pb xs)"
proof (induction xs arbitrary: pb)
  case Nil
  show ?case by simp
next
  case (Cons x xs)
  show ?case
    using Cons[of True] Cons[of False] collapse_after_blank[of xs]
    by (simp add: no_double_blank_Cons)
qed

lemma no_double_blank_prefix: "no_double_blank (a @ w) \<Longrightarrow> no_double_blank a"
proof (induction a rule: no_double_blank.induct)
  case (1 a b ls)
  then show ?case by simp
qed simp_all

lemma no_double_blank_nth:
  "no_double_blank ls \<Longrightarrow> Suc i < length ls \<Longrightarrow> \<not> (ls ! i = [] \<and> ls ! Suc i = [])"
proof (induction ls arbitrary: i rule: no_double_blank.induct)
  case (1 a b ls)
  then show ?case by (cases i) auto
qed simp_all


lemma normalize_lines_eq:
  "normalize_lines ls = rev (dropWhile (\<lambda>l. l = []) (rev (collapse False (map py_strip ls))))"
  by (simp add: normalize_lines_def normalize_loop_collapse pop_blank_eq)

lemma normalize_lines_decomp:
  "\<exists>w. collapse False (map py_strip ls) = normalize_lines ls @ w \<and> (\<forall>l\<in>set w. l = [])"
  unfolding normalize_lines_eq by (rule rev_dropWhile_decomp)

lemma normalize_lines_subseq: "subseq (normalize_lines ls) (map py_strip ls)"
proof -
  obtain w where w: "collapse False (map py_strip ls) = normalize_lines ls @ w"
    using normalize_lines_decomp by blast
  have "subseq (normalize_lines ls) (normalize_lines ls @ w)"
    by (rule subseq_rev_drop_many) simp
  with w have "subseq (normalize_lines ls) (collapse False (map py_strip ls))" by simp
  then show ?thesis using subseq_collapse subseq_order.trans by blast
qed

lemma normalize_lines_nonblank:
  "filter (\<lambda>l. l \<noteq> []) (normalize_lines ls) = filter (\<lambda>l. l \<noteq> []) (map py_strip ls)"
proof -
  obtain w where w: "collapse False (map py_strip ls) = normalize_lines ls @ w"
    and b: "\<forall>l\<in>set w. l = []"
    using normalize_lines_decomp by blast
  from b have "filter (\<lambda>l. l \<noteq> []) w = []" by (induction w) auto
  then have "filter (\<lambda>l. l \<noteq> []) (normalize_lines ls @ w) = filter (\<lambda>l. l \<noteq> []) (normalize_lines ls)"
    by simp
  then show ?thesis using filter_collapse[of False "map py_strip ls"] w by simp
qed

lemma normalize_lines_no_double: "no_double_blank (normalize_lines ls)"
proof -
  obtain w where w: "collapse False (map py_strip ls) = normalize_lines ls @ w"
    using normalize_lines_decomp by blast
  have "no_double_blank (collapse False (map py_strip ls))" by (rule no_double_blank_collapse)
  then show ?thesis unfolding w by (rule no_double_blank_prefix)
qed

lemma normalize_lines_last: "normalize_lines ls \<noteq> [] \<Longrightarrow> last (normalize_lines ls) \<noteq> []"
  unfolding normalize_lines_eq by (rule rev_dropWhile_last)

lemma normalize_lines_stripped:
  assumes "l \<in> set (normalize_lines ls)" "l \<noteq> []"
  shows "\<not> py_isspace (hd l) \<and> \<not> py_isspace (last l)"
proof -
  have "subseq (normalize_lines ls) (map py_strip ls)" by (rule normalize_lines_subseq)
  from list_emb_set[OF this assms(1)] obtain y where "y \<in> set (map py_strip ls)" "l = y"
    by blast
  then obtain r where "l = py_strip r" by auto
  with assms(2) show ?thesis using py_strip_ends[of r] by simp
qed

text \<open>
  Claim C6. For every sequence of raw lines, the lines that \<open>normalize_lines\<close> returns are
  input lines stripped of their line ending and of surrounding white space, in the order
  of the input; every non-blank line is kept; no returned line begins or ends with white
  space; no two consecutive returned lines are blank; the last returned line is not
  blank; and the empty sequence gives the empty sequence.
\<close>

theorem normalize_lines_spec:
  "normalize_lines [] = [] \<and>
   subseq (normalize_lines ls) (map py_strip ls) \<and>
   filter (\<lambda>l. l \<noteq> []) (normalize_lines ls) = filter (\<lambda>l. l \<noteq> []) (map py_strip ls) \<and>
   (\<forall>l\<in>set (normalize_lines ls). l \<noteq> [] \<longrightarrow> \<not> py_isspace (hd l) \<and> \<not> py_isspace (last l)) \<and>
   (\<forall>i. Suc i < length (normalize_lines ls) \<longrightarrow>
        \<not> (normalize_lines ls ! i = [] \<and> normalize_lines ls ! Suc i = [])) \<and>
   (normalize_lines ls \<noteq> [] \<longrightarrow> last (normalize_lines ls) \<noteq> [])"
proof (intro conjI allI impI ballI)
  show "normalize_lines [] = []" by (simp add: normalize_lines_def pop_blank.simps)
  show "subseq (normalize_lines ls) (map py_strip ls)" by (rule normalize_lines_subseq)
  show "filter (\<lambda>l. l \<noteq> []) (normalize_lines ls) = filter (\<lambda>l. l \<noteq> []) (map py_strip ls)"
    by (rule normalize_lines_nonblank)
next
  fix l assume "l \<in> set (normalize_lines ls)" "l \<noteq> []"
  then show "\<not> py_isspace (hd l)" "\<not> py_isspace (last l)"
    using normalize_lines_stripped by blast+
next
  fix i assume "Suc i < length (normalize_lines ls)"
  then show "\<not> (normalize_lines ls ! i = [] \<and> normalize_lines ls ! Suc i = [])"
    using normalize_lines_no_double no_double_blank_nth by blast
next
  assume "normalize_lines ls \<noteq> []"
  then show "last (normalize_lines ls) \<noteq> []" by (rule normalize_lines_last)
qed

theorem normalize_lines_spec_witness:
  "normalize_lines [py '' a '' @ [10], [10], [13, 10], py ''b'', [], []] = [py ''a'', [], py ''b''] \<and>
   subseq [py ''a'', [], py ''b''] [py ''a'', [], [], py ''b'', [], []] \<and>
   last (normalize_lines [py '' a '' @ [10], [10], [13, 10], py ''b'', [], []]) \<noteq> []"
  using normalize_lines_spec[of "[py '' a '' @ [10], [10], [13, 10], py ''b'', [], []]"]
  by (simp add: normalize_lines_def pop_blank.simps str_eval)


section \<open>The Metadata Line Builder\<close>

lemma build_parts_eq:
  "build_parts attrs ks =
     map (\<lambda>k. k @ [61, 34] @ the (attrs k) @ [34]) (filter (\<lambda>k. truthy (attrs k)) ks)"
  by (induction ks) simp_all

text \<open>
  Claim C8 as it is stated fails: a key that is present with the empty string as its
  value is left out as well, while the shape of the specification keeps every key whose
  value is present.
\<close>

theorem build_extinf_counterexample:
  "build_extinf (Map.empty(py ''tvg-name'' \<mapsto> [])) (py ''A'') = py ''#EXTINF:-1 ,A'' \<and>
   spec_build_extinf (Map.empty(py ''tvg-name'' \<mapsto> [])) (py ''A'') = py ''#EXTINF:-1 tvg-name='' @ [34, 34] @ py '',A'' \<and>
   build_extinf (Map.empty(py ''tvg-name'' \<mapsto> [])) (py ''A'')
     \<noteq> spec_build_extinf (Map.empty(py ''tvg-name'' \<mapsto> [])) (py ''A'')"
  by (simp add: build_extinf_def spec_build_extinf_def attr_order_def truthy_def py_def)

text \<open>
  Claim C8, amended. For every attribute mapping and title, \<open>build_extinf\<close> returns
  \<open>#EXTINF:-1\<close>, a space, the pairs \<open>key="value"\<close> joined by single spaces, a comma and
  the title; the pairs are those of the keys \<open>tvg-id\<close>, \<open>tvg-name\<close>, \<open>tvg-logo\<close>,
  \<open>group-title\<close>, in this order, whose value is present and not the empty string.
\<close>

theorem build_extinf_shape:
  "build_extinf attrs title =
     py ''#EXTINF:-1 '' @
     py_join (py '' '')
       (map (\<lambda>k. k @ py ''='' @ [34] @ the (attrs k) @ [34])
          (filter (\<lambda>k. attrs k \<noteq> None \<and> attrs k \<noteq> Some [])
             [py ''tvg-id'', py ''tvg-name'', py ''tvg-logo'', py ''group-title''])) @
     py '','' @ title"
proof -
  have "(\<lambda>k. truthy (attrs k)) = (\<lambda>k. attrs k \<noteq> None \<and> attrs k \<noteq> Some [])"
    by (rule ext) (auto simp: truthy_def split: option.splits)
  moreover have "py '' '' = [32]" "py ''='' = [61]" "py '','' = [44]" by (simp_all add: py_def)
  ultimately show ?thesis
    by (simp add: build_extinf_def build_parts_eq attr_order_def)
qed


section \<open>The Section Classifier\<close>

lemma first_section_find:
  "first_section kws title = map_option fst (find (\<lambda>(key, rx). rx_search rx title) kws)"
  by (induction kws) auto

lemma sre_lower_idem: "sre_lower (sre_lower c) = sre_lower c"
  by (simp add: sre_lower_def)

lemma lit_ignorecase_lower: "lit_ignorecase p (sre_lower c) = lit_ignorecase p c"
  by (simp only: lit_ignorecase_def sre_lower_idem)

lemma match_here_lower: "match_here alt (map sre_lower s) = match_here alt s"
  by (induction alt s rule: match_here.induct) (simp_all add: lit_ignorecase_lower)

lemma rx_search_lower: "rx_search rx (map sre_lower s) = rx_search rx s"
proof (induction s)
  case Nil
  show ?case by simp
next
  case (Cons c s)
  have "\<And>alt. match_here alt (sre_lower c # map sre_lower s) = match_here alt (c # s)"
    using match_here_lower[of _ "c # s"] by simp
  with Cons show ?case by simp
qed

lemma first_section_lower: "first_section kws (map sre_lower s) = first_section kws s"
  by (induction kws) (auto simp: rx_search_lower)

lemma detect_section_eq:
  "detect_section_from_extinf U line = first_section SECTION_KEYWORDS (snd (parse_extinf_attrs U line))"
  by (simp add: detect_section_from_extinf_def case_prod_beta)

lemma sinema_example:
  "detect_section_from_extinf U (py ''#EXTINF:-1,Sinema Kanal'' @ [305]) = Some SINEMALAR"
  by (simp add: str_eval rx_eval fn_eval)

text \<open>
  Claim C4. For every metadata line, \<open>detect_section_from_extinf\<close> returns the key of the
  first entry of \<open>SECTION_KEYWORDS\<close> whose pattern is found in the parsed title, and
  \<open>None\<close> when no pattern is found; the keys are, in order, those of cinema, documentary,
  backup, round-the-clock and movies; the result does not change when the title is
  lower-cased; and the line with the title \<open>Sinema Kanal\<close> followed by a dotless i, and
  with no attributes, is classified as cinema.
\<close>

theorem detect_section_first_match:
  "detect_section_from_extinf U line =
     map_option fst
       (find (\<lambda>(key, rx). rx_search rx (snd (parse_extinf_attrs U line))) SECTION_KEYWORDS) \<and>
   map fst SECTION_KEYWORDS = [SINEMALAR, py ''BELGESEL'', py ''YEDEK'', py ''7/24'', FILMLER] \<and>
   first_section SECTION_KEYWORDS (map sre_lower title) = first_section SECTION_KEYWORDS title \<and>
   detect_section_from_extinf U (py ''#EXTINF:-1,Sinema Kanal'' @ [305]) = Some SINEMALAR"
proof (intro conjI)
  show "detect_section_from_extinf U line =
     map_option fst
       (find (\<lambda>(key, rx). rx_search rx (snd (parse_extinf_attrs U line))) SECTION_KEYWORDS)"
    by (simp add: detect_section_eq first_section_find)
  show "map fst SECTION_KEYWORDS = [SINEMALAR, py ''BELGESEL'', py ''YEDEK'', py ''7/24'', FILMLER]"
    by (simp add: SECTION_KEYWORDS_def)
  show "first_section SECTION_KEYWORDS (map sre_lower title) = first_section SECTION_KEYWORDS title"
    by (rule first_section_lower)
  show "detect_section_from_extinf U (py ''#EXTINF:-1,Sinema Kanal'' @ [305]) = Some SINEMALAR"
    by (rule sinema_example)
qed

lemma match_here_prefix: "match_here (a @ b) s \<Longrightarrow> match_here a s"
  by (induction a s rule: match_here.induct) auto

lemma rx_search_mono:
  assumes "\<And>alt. alt \<in> set rx1 \<Longrightarrow> \<exists>alt'\<in>set rx2. \<exists>b. alt = alt' @ b"
  shows "rx_search rx1 s \<Longrightarrow> rx_search rx2 s"
proof (induction s)
  case Nil
  then obtain alt where "alt \<in> set rx1" "match_here alt []" by (auto simp: list_ex_iff)
  with assms obtain alt' b where "alt' \<in> set rx2" "match_here (alt' @ b) []" by blast
  then show ?case using match_here_prefix by (auto simp: list_ex_iff)
next
  case (Cons c s)
  show ?case
  proof (cases "rx_search rx1 s")
    case True
    with Cons show ?thesis by simp
  next
    case False
    with Cons.prems obtain alt where "alt \<in> set rx1" "match_here alt (c # s)"
      by (auto simp: list_ex_iff)
    with assms obtain alt' b where "alt' \<in> set rx2" "match_here (alt' @ b) (c # s)" by blast
    then show ?thesis using match_here_prefix by (auto simp: list_ex_iff)
  qed
qed

lemma movies_implies_cinema:
  "rx_search (snd (SECTION_KEYWORDS ! 4)) title \<Longrightarrow> rx_search (snd (SECTION_KEYWORDS ! 0)) title"
proof (rule rx_search_mono)
  fix alt assume "alt \<in> set (snd (SECTION_KEYWORDS ! 4))"
  then have "alt = lits ''filmler'' @ [] \<or> alt = lits ''filmler'' @ [Lit 32, Lit 127916]"
    by (auto simp: SECTION_KEYWORDS_def lits_def)
  moreover have "lits ''filmler'' \<in> set (snd (SECTION_KEYWORDS ! 0))"
    by (simp add: SECTION_KEYWORDS_def)
  ultimately show "\<exists>alt'\<in>set (snd (SECTION_KEYWORDS ! 0)). \<exists>b. alt = alt' @ b" by blast
qed


text \<open>
  Claim C10. For every metadata line, \<open>detect_section_from_extinf\<close> never returns the key
  of the fifth entry (movies): every title in which the movies pattern is found is a
  title in which the cinema pattern, tested first, is found.
\<close>

theorem movies_category_unreachable:
  "detect_section_from_extinf U line \<noteq> Some FILMLER \<and>
   fst (SECTION_KEYWORDS ! 4) = FILMLER \<and>
   (rx_search (snd (SECTION_KEYWORDS ! 4)) title \<longrightarrow> rx_search (snd (SECTION_KEYWORDS ! 0)) title)"
proof (intro conjI impI)
  let ?t = "snd (parse_extinf_attrs U line)"
  have k: "SINEMALAR \<noteq> FILMLER" "py ''BELGESEL'' \<noteq> FILMLER" "py ''YEDEK'' \<noteq> FILMLER"
    "py ''7/24'' \<noteq> FILMLER"
    by (simp_all add: SINEMALAR_def FILMLER_def py_def)
  have m: "rx_search (snd (SECTION_KEYWORDS ! 4)) ?t \<Longrightarrow> rx_search (snd (SECTION_KEYWORDS ! 0)) ?t"
    by (rule movies_implies_cinema)
  have "first_section SECTION_KEYWORDS ?t \<noteq> Some FILMLER"
    using k m unfolding SECTION_KEYWORDS_def by (auto split: if_splits)
  then show "detect_section_from_extinf U line \<noteq> Some FILMLER"
    by (simp add: detect_section_eq)
  show "fst (SECTION_KEYWORDS ! 4) = FILMLER" by (simp add: SECTION_KEYWORDS_def)
next
  assume "rx_search (snd (SECTION_KEYWORDS ! 4)) title"
  then show "rx_search (snd (SECTION_KEYWORDS ! 0)) title" by (rule movies_implies_cinema)
qed

theorem movies_category_unreachable_witness:
  "rx_search (snd (SECTION_KEYWORDS ! 4)) (py ''Yerli Filmler'') \<and>
   rx_search (snd (SECTION_KEYWORDS ! 0)) (py ''Yerli Filmler'') \<and>
   detect_section_from_extinf (\<lambda>c. False) (py ''#EXTINF:-1,Yerli Filmler'') = Some SINEMALAR"
proof -
  have a: "rx_search (snd (SECTION_KEYWORDS ! 4)) (py ''Yerli Filmler'')"
    by (simp add: str_eval rx_eval fn_eval)
  have b: "detect_section_from_extinf (\<lambda>c. False) (py ''#EXTINF:-1,Yerli Filmler'') = Some SINEMALAR"
    by (simp add: str_eval rx_eval fn_eval)
  from a b movies_category_unreachable[of "\<lambda>c. False" "py ''#EXTINF:-1,Yerli Filmler''" "py ''Yerli Filmler''"]
  show ?thesis by blast
qed


section \<open>The Entry Normalizer\<close>

subsection \<open>What the parser hands to the loop\<close>

lemma attr_findall_keys:
  "(k, v) \<in> set (attr_findall U s) \<Longrightarrow> \<forall>c\<in>set k. sre_word U c"
proof (induction U s rule: attr_findall.induct)
  case (1 U s)
  show ?case
  proof (cases "s = []")
    case True
    with 1 show ?thesis by (simp add: attr_findall.simps)
  next
    case False
    show ?thesis
    proof (cases "attr_match_at U s")
      case None
      with False 1 show ?thesis by (simp add: attr_findall.simps[of U s])
    next
      case (Some m)
      obtain k' v' rest where m: "m = (k', v', rest)" by (cases m) auto
      with Some have "k' = takeWhile (sre_word U) s"
        by (auto simp: attr_match_at_def Let_def split: if_splits list.splits)
      then have k': "\<forall>c\<in>set k'. sre_word U c" by (auto dest: set_takeWhileD)
      from False Some m have "attr_findall U s = (k', v') # attr_findall U rest"
        by (simp add: attr_findall.simps[of U s])
      with "1.prems" have "(k, v) = (k', v') \<or> (k, v) \<in> set (attr_findall U rest)" by simp
      then show ?thesis
      proof
        assume "(k, v) = (k', v')"
        with k' show ?thesis by simp
      next
        assume "(k, v) \<in> set (attr_findall U rest)"
        with "1.IH"(2) False Some m show ?thesis by blast
      qed
    qed
  qed
qed

lemma hyphen_not_word: "\<not> sre_word U 45"
  by (simp add: sre_word_def)

lemma parsed_attrs_no_hyphen:
  assumes "45 \<in> set k"
  shows "fst (parse_extinf_attrs U line) k = None"
proof -
  have "k \<notin> fst ` set (attr_findall U line)"
  proof
    assume "k \<in> fst ` set (attr_findall U line)"
    then obtain v where "(k, v) \<in> set (attr_findall U line)" by auto
    then have "\<forall>c\<in>set k. sre_word U c" by (rule attr_findall_keys)
    with assms hyphen_not_word show False by blast
  qed
  then have "map_of (rev (attr_findall U line)) k = None"
    by (simp add: map_of_eq_None_iff)
  then show ?thesis by (simp add: parse_extinf_attrs_def dict_of_def Let_def)
qed

lemma parsed_attrs_none:
  "\<forall>k\<in>set attr_order. fst (parse_extinf_attrs U line) k = None"
  by (auto intro!: parsed_attrs_no_hyphen simp: attr_order_def py_def)

lemma parsed_title: "snd (parse_extinf_attrs U line) = title_of line"
  by (simp add: parse_extinf_attrs_def title_of_def Let_def)

lemma build_parts_cong:
  "(\<And>k. k \<in> set ks \<Longrightarrow> a k = b k) \<Longrightarrow> build_parts a ks = build_parts b ks"
  by (induction ks) simp_all

lemma build_extinf_cong:
  "(\<And>k. k \<in> set attr_order \<Longrightarrow> a k = b k) \<Longrightarrow> build_extinf a t = build_extinf b t"
  using build_parts_cong[of attr_order a b] by (simp add: build_extinf_def)

lemma filled_canon:
  assumes "\<And>k. k \<in> set attr_order \<Longrightarrow>
     a k = (Map.empty(py ''tvg-id'' \<mapsto> sanitize_id name, py ''tvg-name'' \<mapsto> name,
                  py ''tvg-logo'' \<mapsto> logo, py ''group-title'' \<mapsto> grp)) k"
  shows "build_extinf a name = canon name grp logo"
  unfolding canon_def using assms by (rule build_extinf_cong)


lemma keys_distinct:
  "py ''tvg-id'' \<noteq> py ''tvg-name''" "py ''tvg-id'' \<noteq> py ''tvg-logo''"
  "py ''tvg-id'' \<noteq> py ''group-title''" "py ''tvg-name'' \<noteq> py ''tvg-id''"
  "py ''tvg-name'' \<noteq> py ''tvg-logo''" "py ''tvg-name'' \<noteq> py ''group-title''"
  "py ''tvg-logo'' \<noteq> py ''tvg-id''" "py ''tvg-logo'' \<noteq> py ''tvg-name''"
  "py ''tvg-logo'' \<noteq> py ''group-title''" "py ''group-title'' \<noteq> py ''tvg-id''"
  "py ''group-title'' \<noteq> py ''tvg-name''" "py ''group-title'' \<noteq> py ''tvg-logo''"
  by (simp_all add: py_def)

lemma section_step_eq:
  assumes none: "\<forall>k\<in>set attr_order. attrs k = None"
  shows "section_step lines st attrs title sec =
     (if idx st + 1 < length lines \<and> \<not> is_inf (lines ! (idx st + 1))
      then \<lparr>idx = idx st + 2, current_group = Some sec,
            out_lines = out_lines st @ [canon title sec (default_logo sec), lines ! (idx st + 1)]\<rparr>
      else \<lparr>idx = idx st + 1, current_group = Some sec,
            out_lines = out_lines st @ [canon title sec (default_logo sec)]\<rparr>)"
proof -
  have n: "attrs (py ''tvg-id'') = None" "attrs (py ''tvg-name'') = None"
    "attrs (py ''tvg-logo'') = None" "attrs (py ''group-title'') = None"
    using none by (simp_all add: attr_order_def)
  have "build_extinf
      (setdefault (setdefault (setdefault (setdefault attrs (py ''tvg-name'') title)
         (py ''group-title'') sec) (py ''tvg-logo'') (default_logo sec))
         (py ''tvg-id'') (sanitize_id title)) title
      = canon title sec (default_logo sec)"
    by (rule filled_canon) (auto simp: attr_order_def setdefault_def n keys_distinct)
  then show ?thesis
    by (simp add: section_step_def Let_def is_inf_def)
qed

lemma entry_step_eq:
  assumes none: "\<forall>k\<in>set attr_order. attrs k = None"
  shows "entry_step lines st attrs title =
     (let j = scan_url lines (idx st + 1);
          url = (if j < length lines then Some (lines ! j) else None);
          grp = or_else (current_group st) (py ''DEFAULT'');
          name = or_else (Some title) (or_else url []);
          meta = canon name grp (default_logo (py_upper grp))
      in if truthy url
         then \<lparr>idx = j + 1, current_group = current_group st,
               out_lines = out_lines st @ [meta, the url]\<rparr>
         else \<lparr>idx = j, current_group = current_group st, out_lines = out_lines st @ [meta]\<rparr>)"
proof -
  have n: "attrs (py ''tvg-id'') = None" "attrs (py ''tvg-name'') = None"
    "attrs (py ''tvg-logo'') = None" "attrs (py ''group-title'') = None"
    using none by (simp_all add: attr_order_def)
  define j where "j = scan_url lines (idx st + 1)"
  define url where "url = (if j < length lines then Some (lines ! j) else None)"
  define grp where "grp = or_else (current_group st) (py ''DEFAULT'')"
  define name where "name = or_else (Some title) (or_else url [])"
  define a1 where "a1 = setdefault attrs (py ''group-title'') grp"
  define a2 where "a2 = setdefault a1 (py ''tvg-name'') name"
  define a3 where "a3 = setdefault a2 (py ''tvg-id'') (sanitize_id (get_or a2 (py ''tvg-name'') []))"
  define a4 where "a4 = (if \<not> truthy (a3 (py ''tvg-logo''))
     then a3(py ''tvg-logo'' \<mapsto> default_logo (py_upper grp)) else a3)"
  have g: "or_else (attrs (py ''group-title'')) (or_else (current_group st) (py ''DEFAULT'')) = grp"
    by (simp add: n or_else_def grp_def)
  have a1: "a1 = attrs(py ''group-title'' \<mapsto> grp)" by (simp add: a1_def setdefault_def n)
  have nm: "or_else (a1 (py ''tvg-name'')) (or_else (Some title) (or_else url [])) = name"
    by (simp add: a1 n keys_distinct or_else_def name_def)
  have a2: "a2 = attrs(py ''group-title'' \<mapsto> grp, py ''tvg-name'' \<mapsto> name)"
    by (simp add: a2_def a1 setdefault_def n keys_distinct)
  have a3: "a3 = attrs(py ''group-title'' \<mapsto> grp, py ''tvg-name'' \<mapsto> name,
      py ''tvg-id'' \<mapsto> sanitize_id name)"
    by (simp add: a3_def a2 setdefault_def get_or_def n keys_distinct)
  have a4: "a4 = attrs(py ''group-title'' \<mapsto> grp, py ''tvg-name'' \<mapsto> name,
      py ''tvg-id'' \<mapsto> sanitize_id name, py ''tvg-logo'' \<mapsto> default_logo (py_upper grp))"
    by (simp add: a4_def a3 truthy_def n keys_distinct)
  have gn: "get_or a4 (py ''tvg-name'') (py ''None'') = name"
    by (simp add: a4 get_or_def keys_distinct)
  have "build_extinf a4 name = canon name grp (default_logo (py_upper grp))"
    by (rule filled_canon) (auto simp: attr_order_def a4 n keys_distinct)
  with gn have b: "build_extinf a4 (get_or a4 (py ''tvg-name'') (py ''None''))
      = canon name grp (default_logo (py_upper grp))" by simp
  have "entry_step lines st attrs title =
     (if truthy url
      then \<lparr>idx = j + 1, current_group = current_group st,
            out_lines = (out_lines st @ [build_extinf a4 (get_or a4 (py ''tvg-name'') (py ''None''))]) @ [the url]\<rparr>
      else \<lparr>idx = j, current_group = current_group st,
            out_lines = out_lines st @ [build_extinf a4 (get_or a4 (py ''tvg-name'') (py ''None''))]\<rparr>)"
    unfolding entry_step_def Let_def g
    unfolding j_def[symmetric] url_def[symmetric] a1_def[symmetric] nm
    unfolding a2_def[symmetric] a3_def[symmetric] a4_def[symmetric]
    by (rule refl)
  then show ?thesis
    unfolding b Let_def j_def[symmetric] url_def[symmetric] grp_def[symmetric] name_def[symmetric]
    by simp
qed


lemma first_section_key: "first_section kws t = Some sec \<Longrightarrow> sec \<in> fst ` set kws"
  by (induction kws) (auto split: if_splits)

lemma section_nonempty: "first_section SECTION_KEYWORDS t = Some sec \<Longrightarrow> sec \<noteq> []"
proof -
  assume "first_section SECTION_KEYWORDS t = Some sec"
  then have "sec \<in> fst ` set SECTION_KEYWORDS" by (rule first_section_key)
  then show ?thesis
    by (auto simp: SECTION_KEYWORDS_def SINEMALAR_def FILMLER_def py_def)
qed

lemma detect_section_of: "detect_section_from_extinf U line = section_of line"
  by (simp add: detect_section_from_extinf_def section_of_def case_prod_beta parsed_title)

lemma truthy_section_of: "truthy (section_of line) \<longleftrightarrow> section_of line \<noteq> None"
  using section_nonempty[of "title_of line"]
  by (cases "section_of line") (auto simp: truthy_def section_of_def)

lemma main_step_eq:
  "main_step U lines st =
     (let l = lines ! idx st in
      if is_m3u l then st\<lparr>idx := idx st + 1, out_lines := out_lines st @ [py ''#EXTM3U'']\<rparr>
      else if is_inf l then
        (case section_of l of
           Some sec \<Rightarrow> section_step lines st (fst (parse_extinf_attrs U l)) (title_of l) sec
         | None \<Rightarrow> entry_step lines st (fst (parse_extinf_attrs U l)) (title_of l))
      else st\<lparr>idx := idx st + 1, out_lines := out_lines st @ [l]\<rparr>)"
  using truthy_section_of[of "lines ! idx st"]
  by (cases "section_of (lines ! idx st)")
    (auto simp: main_step_def Let_def is_m3u_def is_inf_def detect_section_of case_prod_beta
       parsed_title)

lemma scan_url_drop:
  "j \<le> length lines \<Longrightarrow>
   scan_url lines j \<le> length lines \<and> drop (scan_url lines j) lines = dropWhile is_hash (drop j lines)"
proof (induction lines j rule: scan_url.induct)
  case (1 lines j)
  show ?case
  proof (cases "j < length lines \<and> py_startswith (lines ! j) (py ''#'')")
    case True
    then have s: "scan_url lines j = scan_url lines (j + 1)"
      by (subst scan_url.simps) simp
    from True have d: "drop j lines = lines ! j # drop (j + 1) lines"
      by (simp add: Cons_nth_drop_Suc)
    from True 1 have "scan_url lines (j + 1) \<le> length lines \<and>
        drop (scan_url lines (j + 1)) lines = dropWhile is_hash (drop (j + 1) lines)"
      by simp
    moreover from True have "is_hash (lines ! j)" by (simp add: is_hash_def)
    ultimately show ?thesis unfolding s d by simp
  next
    case False
    then have s: "scan_url lines j = j" by (subst scan_url.simps) auto
    show ?thesis
    proof (cases "j < length lines")
      case True
      then have d: "drop j lines = lines ! j # drop (j + 1) lines"
        by (simp add: Cons_nth_drop_Suc)
      from True False have "\<not> is_hash (lines ! j)" by (simp add: is_hash_def)
      with True show ?thesis unfolding s d by simp
    next
      case False
      with "1.prems" show ?thesis unfolding s by simp
    qed
  qed
qed



subsection \<open>The loop and the function of the remaining lines agree\<close>

lemma or_else_Some_Nil: "or_else (Some u) [] = u"
  by (simp add: or_else_def)

lemma main_step_pass:
  assumes i: "idx st < length lines"
  shows "idx (main_step U lines st) \<le> length lines \<and>
     out_lines (main_step U lines st) @
       pass (current_group (main_step U lines st)) (drop (idx (main_step U lines st)) lines)
     = out_lines st @ pass (current_group st) (drop (idx st) lines)"
proof -
  define l where "l = lines ! idx st"
  define ls where "ls = drop (idx st + 1) lines"
  define a where "a = fst (parse_extinf_attrs U l)"
  have d: "drop (idx st) lines = l # ls"
    using i by (simp add: l_def ls_def Cons_nth_drop_Suc)
  have none: "\<forall>k\<in>set attr_order. a k = None"
    unfolding a_def by (rule parsed_attrs_none)
  have step: "main_step U lines st =
     (if is_m3u l then st\<lparr>idx := idx st + 1, out_lines := out_lines st @ [py ''#EXTM3U'']\<rparr>
      else if is_inf l then
        (case section_of l of
           Some sec \<Rightarrow> section_step lines st a (title_of l) sec
         | None \<Rightarrow> entry_step lines st a (title_of l))
      else st\<lparr>idx := idx st + 1, out_lines := out_lines st @ [l]\<rparr>)"
    unfolding main_step_eq Let_def l_def a_def by (rule refl)
  show ?thesis
  proof (cases "is_m3u l")
    case True
    with i show ?thesis unfolding step d by (simp add: pass.simps(2) ls_def)
  next
    case m3u: False
    show ?thesis
    proof (cases "is_inf l")
      case False
      with m3u i show ?thesis unfolding step d by (simp add: pass.simps(2) ls_def)
    next
      case inf: True
      show ?thesis
      proof (cases "section_of l")
        case (Some sec)
        have st1: "main_step U lines st = section_step lines st a (title_of l) sec"
          using m3u inf Some by (simp add: step)
        have st2: "main_step U lines st =
           (if idx st + 1 < length lines \<and> \<not> is_inf (lines ! (idx st + 1))
            then \<lparr>idx = idx st + 2, current_group = Some sec,
                  out_lines = out_lines st @ [canon (title_of l) sec (default_logo sec), lines ! (idx st + 1)]\<rparr>
            else \<lparr>idx = idx st + 1, current_group = Some sec,
                  out_lines = out_lines st @ [canon (title_of l) sec (default_logo sec)]\<rparr>)"
          unfolding st1 using none by (rule section_step_eq)
        show ?thesis
        proof (cases "idx st + 1 < length lines")
          case False
          with i have e: "ls = []" by (simp add: ls_def)
          from False i show ?thesis
            unfolding st2 d e
            using m3u inf Some by (simp add: pass.simps(2) section_line_def)
        next
          case True
          then have e: "ls = lines ! (idx st + 1) # drop (idx st + 2) lines"
            by (simp add: ls_def Cons_nth_drop_Suc)
          show ?thesis
          proof (cases "is_inf (lines ! (idx st + 1))")
            case True
            with \<open>idx st + 1 < length lines\<close> show ?thesis
              unfolding st2 d
              using m3u inf Some e
              by (simp add: pass.simps(2)[of _ l] section_line_def ls_def)
          next
            case False
            with \<open>idx st + 1 < length lines\<close> show ?thesis
              unfolding st2 d
              using m3u inf Some e
              by (simp add: pass.simps(2)[of _ l] section_line_def)
          qed
        qed
      next
        case None
        have st1: "main_step U lines st = entry_step lines st a (title_of l)"
          using m3u inf None by (simp add: step)
        define j where "j = scan_url lines (idx st + 1)"
        define url where "url = (if j < length lines then Some (lines ! j) else None)"
        define meta where "meta = canon (or_else (Some (title_of l)) (or_else url []))
           (or_else (current_group st) (py ''DEFAULT''))
           (default_logo (py_upper (or_else (current_group st) (py ''DEFAULT''))))"
        have st2: "main_step U lines st =
           (if truthy url
            then \<lparr>idx = j + 1, current_group = current_group st,
                  out_lines = out_lines st @ [meta, the url]\<rparr>
            else \<lparr>idx = j, current_group = current_group st, out_lines = out_lines st @ [meta]\<rparr>)"
          unfolding st1 entry_step_eq[of a lines st "title_of l", OF none] Let_def
            j_def url_def meta_def by (rule refl)
        from i have "idx st + 1 \<le> length lines" by simp
        from scan_url_drop[OF this] have j: "j \<le> length lines"
          and dj: "drop j lines = dropWhile is_hash ls"
          by (simp_all add: j_def ls_def)
        have p: "pass (current_group st) (l # ls) =
            entry_line (current_group st) l (drop j lines) #
            (case drop j lines of
               [] \<Rightarrow> []
             | u # r \<Rightarrow> if u = [] then pass (current_group st) (u # r)
                        else u # pass (current_group st) r)"
          using m3u inf None by (simp add: pass.simps(2)[of _ l] dj)
        show ?thesis
        proof (cases "j < length lines")
          case False
          with j have e: "drop j lines = []" by simp
          from False j show ?thesis
            unfolding st2 d p
            unfolding e url_def meta_def
            by (simp add: truthy_def entry_line_def entry_name_def or_else_def)
        next
          case True
          then have e: "drop j lines = lines ! j # drop (j + 1) lines"
            by (simp add: Cons_nth_drop_Suc)
          from True show ?thesis
            unfolding st2 d p
            unfolding e url_def meta_def
            by (auto simp: truthy_def entry_line_def entry_name_def or_else_Some_Nil e)
        qed
      qed
    qed
  qed
qed


lemma main_loop_pass:
  "idx st \<le> length lines \<Longrightarrow>
   out_lines (main_loop U lines st) = out_lines st @ pass (current_group st) (drop (idx st) lines)"
proof (induction U lines st rule: main_loop.induct)
  case (1 U lines st)
  show ?case
  proof (cases "idx st < length lines")
    case True
    then have "main_loop U lines st = main_loop U lines (main_step U lines st)"
      by (subst main_loop.simps) simp
    moreover from main_step_pass[OF True, of U]
    have le: "idx (main_step U lines st) \<le> length lines"
      and eq: "out_lines (main_step U lines st) @
        pass (current_group (main_step U lines st)) (drop (idx (main_step U lines st)) lines)
        = out_lines st @ pass (current_group st) (drop (idx st) lines)"
      by simp_all
    moreover from "1.IH"[OF True le]
    have "out_lines (main_loop U lines (main_step U lines st)) =
        out_lines (main_step U lines st) @
        pass (current_group (main_step U lines st)) (drop (idx (main_step U lines st)) lines)" .
    ultimately show ?thesis by simp
  next
    case False
    with "1.prems" have "idx st = length lines" by simp
    moreover from False have "main_loop U lines st = st" by (subst main_loop.simps) simp
    ultimately show ?thesis by simp
  qed
qed

lemma entry_pass_eq: "entry_pass U lines = pass None lines"
  using main_loop_pass[of init_state lines U]
  by (simp add: entry_pass_def init_state_def)

lemma main_eq: "main U raw = pass None (normalize_lines raw)"
  by (simp add: main_def entry_pass_eq)


subsection \<open>The playlist header\<close>

text \<open>
  Claim C7 as it is stated fails: a header line is not passed through unchanged. The line
  \<open>#extm3u url-tvg=x\<close> is not what is appended to the output.
\<close>

theorem header_step_counterexample:
  "out_lines (main_step (\<lambda>c. False) [py ''#extm3u url-tvg=x''] init_state)
     \<noteq> out_lines init_state @ [py ''#extm3u url-tvg=x'']"
  by (simp add: main_step_def init_state_def str_eval)

text \<open>
  Claim C7, amended. When the line at the index, upper-cased, starts with \<open>#EXTM3U\<close>, one
  iteration appends the literal \<open>#EXTM3U\<close> to the output (whatever else the line holds),
  advances the index by one and leaves \<open>current_group\<close> as it is.
\<close>

theorem header_step:
  "idx st < length lines \<Longrightarrow> py_startswith (py_upper (lines ! idx st)) (py ''#EXTM3U'') \<Longrightarrow>
   main_step U lines st = st\<lparr>idx := idx st + 1, out_lines := out_lines st @ [py ''#EXTM3U'']\<rparr>"
  by (simp add: main_step_def)

theorem header_step_witness:
  "main_step (\<lambda>c. False) [py ''#extm3u url-tvg=x''] init_state
     = \<lparr>idx = 1, current_group = None, out_lines = [py ''#EXTM3U'']\<rparr>"
proof -
  have "idx init_state < length [py ''#extm3u url-tvg=x'']" by (simp add: init_state_def)
  moreover have "py_startswith (py_upper ([py ''#extm3u url-tvg=x''] ! idx init_state)) (py ''#EXTM3U'')"
    by (simp add: init_state_def str_eval)
  ultimately show ?thesis
    using header_step[of init_state "[py ''#extm3u url-tvg=x'']" "\<lambda>c. False"]
    by (simp add: init_state_def)
qed


subsection \<open>The cases of one iteration\<close>

lemma origin_suffix: "origin m ys \<Longrightarrow> origin m (p @ ys)"
  unfolding origin_def
proof (elim disjE exE conjE)
  fix pre l ls sec
  assume "ys = pre @ l # ls" "is_inf l" "section_of l = Some sec" "m = section_line l sec"
  then have "p @ ys = (p @ pre) @ l # ls \<and> is_inf l \<and> section_of l = Some sec \<and> m = section_line l sec"
    by simp
  then show "m = py ''#EXTM3U'' \<or> (m \<in> set (p @ ys) \<and> \<not> is_inf m) \<or>
     (\<exists>pre l ls. p @ ys = pre @ l # ls \<and> is_inf l \<and>
        ((\<exists>sec. section_of l = Some sec \<and> m = section_line l sec) \<or>
         (\<exists>cur. section_of l = None \<and> m = entry_line cur l (dropWhile is_hash ls))))"
    by blast
next
  fix pre l ls cur
  assume "ys = pre @ l # ls" "is_inf l" "section_of l = None"
    "m = entry_line cur l (dropWhile is_hash ls)"
  then have "p @ ys = (p @ pre) @ l # ls \<and> is_inf l \<and> section_of l = None \<and>
      m = entry_line cur l (dropWhile is_hash ls)"
    by simp
  then show "m = py ''#EXTM3U'' \<or> (m \<in> set (p @ ys) \<and> \<not> is_inf m) \<or>
     (\<exists>pre l ls. p @ ys = pre @ l # ls \<and> is_inf l \<and>
        ((\<exists>sec. section_of l = Some sec \<and> m = section_line l sec) \<or>
         (\<exists>cur. section_of l = None \<and> m = entry_line cur l (dropWhile is_hash ls))))"
    by blast
qed auto

lemma origin_Cons: "origin m ys \<Longrightarrow> origin m (x # ys)"
  using origin_suffix[of m ys "[x]"] by simp

lemma upper_cp_hash: "upper_cp c = x # xs \<Longrightarrow> x = 35 \<Longrightarrow> c = 35"
  by (auto simp: upper_cp_def split: if_splits)

lemma upper_cp_nonempty: "upper_cp c \<noteq> []"
  by (simp add: upper_cp_def)

lemma is_inf_hash: "is_inf l \<Longrightarrow> is_hash l"
proof -
  assume a: "is_inf l"
  then obtain c s where l: "l = c # s"
    by (cases l) (auto simp: is_inf_def py_startswith_def py_upper_def py_def)
  obtain x xs where u: "upper_cp c = x # xs" using upper_cp_nonempty[of c] by (cases "upper_cp c") auto
  from a have "x = 35"
    unfolding is_inf_def py_startswith_def py_upper_def l by (simp add: u py_def)
  with u have "c = 35" by (rule upper_cp_hash)
  then show ?thesis by (simp add: l is_hash_def py_startswith_def py_def)
qed

lemma m3u_not_inf: "is_m3u l \<Longrightarrow> \<not> is_inf l"
  by (auto simp: is_m3u_def is_inf_def py_startswith_def py_def)


lemma inf_not_m3u: "is_inf l \<Longrightarrow> \<not> is_m3u l"
  using m3u_not_inf by blast

lemma pass_m3u: "is_m3u l \<Longrightarrow> pass cur (l # ls) = py ''#EXTM3U'' # pass cur ls"
  by (simp add: pass.simps(2))

lemma pass_other: "\<not> is_m3u l \<Longrightarrow> \<not> is_inf l \<Longrightarrow> pass cur (l # ls) = l # pass cur ls"
  by (simp add: pass.simps(2))

lemma pass_section_end:
  "is_inf l \<Longrightarrow> section_of l = Some sec \<Longrightarrow> pass cur [l] = [section_line l sec]"
  by (simp add: pass.simps(2) inf_not_m3u)

lemma pass_section_inf:
  "is_inf l \<Longrightarrow> section_of l = Some sec \<Longrightarrow> is_inf m \<Longrightarrow>
   pass cur (l # m # ls) = section_line l sec # pass (Some sec) (m # ls)"
  by (simp add: pass.simps(2)[of cur l] inf_not_m3u)

lemma pass_section_media:
  "is_inf l \<Longrightarrow> section_of l = Some sec \<Longrightarrow> \<not> is_inf m \<Longrightarrow>
   pass cur (l # m # ls) = section_line l sec # m # pass (Some sec) ls"
  by (simp add: pass.simps(2)[of cur l] inf_not_m3u)

lemma pass_entry_end:
  assumes "is_inf l" "section_of l = None" and d: "dropWhile is_hash ls = []"
  shows "pass cur (l # ls) = [entry_line cur l []]"
  unfolding pass.simps(2)[of cur l ls] d using assms(1,2) by (simp add: inf_not_m3u)

lemma pass_entry_blank:
  assumes "is_inf l" "section_of l = None" and d: "dropWhile is_hash ls = [] # r"
  shows "pass cur (l # ls) = entry_line cur l ([] # r) # pass cur ([] # r)"
  unfolding pass.simps(2)[of cur l ls] d using assms(1,2) by (simp add: inf_not_m3u)

lemma pass_entry_url:
  assumes "is_inf l" "section_of l = None" and d: "dropWhile is_hash ls = u # r" and "u \<noteq> []"
  shows "pass cur (l # ls) = entry_line cur l (u # r) # u # pass cur r"
  unfolding pass.simps(2)[of cur l ls] d using assms(1,2,4) by (simp add: inf_not_m3u)

lemma pass_cases_induct
  [case_names Nil m3u other section_end section_inf section_media entry_end entry_blank entry_url]:
  assumes "\<And>cur. P cur []"
    and "\<And>cur l ls. is_m3u l \<Longrightarrow> P cur ls \<Longrightarrow> P cur (l # ls)"
    and "\<And>cur l ls. \<not> is_m3u l \<Longrightarrow> \<not> is_inf l \<Longrightarrow> P cur ls \<Longrightarrow> P cur (l # ls)"
    and "\<And>cur l sec. is_inf l \<Longrightarrow> section_of l = Some sec \<Longrightarrow> P cur [l]"
    and "\<And>cur l sec m ls. is_inf l \<Longrightarrow> section_of l = Some sec \<Longrightarrow> is_inf m \<Longrightarrow>
           P (Some sec) (m # ls) \<Longrightarrow> P cur (l # m # ls)"
    and "\<And>cur l sec m ls. is_inf l \<Longrightarrow> section_of l = Some sec \<Longrightarrow> \<not> is_inf m \<Longrightarrow>
           P (Some sec) ls \<Longrightarrow> P cur (l # m # ls)"
    and "\<And>cur l ls. is_inf l \<Longrightarrow> section_of l = None \<Longrightarrow> dropWhile is_hash ls = [] \<Longrightarrow>
           P cur (l # ls)"
    and "\<And>cur l ls r. is_inf l \<Longrightarrow> section_of l = None \<Longrightarrow> dropWhile is_hash ls = [] # r \<Longrightarrow>
           P cur ([] # r) \<Longrightarrow> P cur (l # ls)"
    and "\<And>cur l ls u r. is_inf l \<Longrightarrow> section_of l = None \<Longrightarrow> dropWhile is_hash ls = u # r \<Longrightarrow>
           u \<noteq> [] \<Longrightarrow> P cur r \<Longrightarrow> P cur (l # ls)"
  shows "P cur xs"
proof (induction cur xs rule: pass.induct)
  case (1 cur)
  show ?case by (rule assms(1))
next
  case (2 cur l ls)
  show ?case
  proof (cases "is_m3u l")
    case True
    with 2(1) assms(2) show ?thesis by blast
  next
    case m: False
    show ?thesis
    proof (cases "is_inf l")
      case False
      with m 2(6) assms(3) show ?thesis by blast
    next
      case i: True
      show ?thesis
      proof (cases "section_of l")
        case (Some sec)
        show ?thesis
        proof (cases ls)
          case Nil
          with i Some assms(4) show ?thesis by blast
        next
          case (Cons x xs)
          show ?thesis
          proof (cases "is_inf x")
            case True
            with m i Some Cons 2(4) have "P (Some sec) (x # xs)" by blast
            with i Some True show ?thesis unfolding Cons by (rule assms(5))
          next
            case False
            with m i Some Cons 2(5) have "P (Some sec) xs" by blast
            with i Some False show ?thesis unfolding Cons by (rule assms(6))
          qed
        qed
      next
        case None
        show ?thesis
        proof (cases "dropWhile is_hash ls")
          case Nil
          with i None show ?thesis by (rule assms(7))
        next
          case (Cons u r)
          show ?thesis
          proof (cases "u = []")
            case True
            with m i None Cons 2(2) have "P cur ([] # r)" by blast
            moreover from Cons True have "dropWhile is_hash ls = [] # r" by simp
            ultimately show ?thesis using i None assms(8) by blast
          next
            case False
            with m i None Cons 2(3) have "P cur r" by blast
            with i None Cons False show ?thesis by (rule assms(9))
          qed
        qed
      qed
    qed
  qed
qed


subsection \<open>Where the lines of the output come from\<close>

lemma origin_here_section:
  "is_inf l \<Longrightarrow> section_of l = Some sec \<Longrightarrow> origin (section_line l sec) (l # ls)"
  unfolding origin_def by (intro disjI2) (metis append_Nil)

lemma origin_here_entry:
  "is_inf l \<Longrightarrow> section_of l = None \<Longrightarrow>
   origin (entry_line cur l (dropWhile is_hash ls)) (l # ls)"
  unfolding origin_def by (intro disjI2) (metis append_Nil)

lemma origin_line: "m \<in> set xs \<Longrightarrow> \<not> is_inf m \<Longrightarrow> origin m xs"
  by (simp add: origin_def)

lemma pass_origin: "m \<in> set (pass cur xs) \<Longrightarrow> origin m xs"
proof (induction cur xs rule: pass_cases_induct)
  case (Nil cur)
  then show ?case by simp
next
  case (m3u cur l ls)
  from m3u(1,3) have "m = py ''#EXTM3U'' \<or> m \<in> set (pass cur ls)"
    by (simp add: pass_m3u)
  then show ?case
  proof
    assume "m = py ''#EXTM3U''"
    then show ?thesis by (simp add: origin_def)
  next
    assume "m \<in> set (pass cur ls)"
    then have "origin m ls" by (rule m3u(2))
    then show ?thesis by (rule origin_Cons)
  qed
next
  case (other cur l ls)
  from other(1,2,4) have "m = l \<or> m \<in> set (pass cur ls)"
    by (simp add: pass_other)
  then show ?case
  proof
    assume "m = l"
    with other(2) show ?thesis by (simp add: origin_line)
  next
    assume "m \<in> set (pass cur ls)"
    then have "origin m ls" by (rule other(3))
    then show ?thesis by (rule origin_Cons)
  qed
next
  case (section_end cur l sec)
  from section_end have "m = section_line l sec" by (simp add: pass_section_end)
  with section_end(1,2) show ?case by (simp add: origin_here_section)
next
  case (section_inf cur l sec m' ls)
  from section_inf(1-3,5) have "m = section_line l sec \<or> m \<in> set (pass (Some sec) (m' # ls))"
    by (simp add: pass_section_inf)
  then show ?case
  proof
    assume "m = section_line l sec"
    with section_inf(1,2) show ?thesis by (simp add: origin_here_section)
  next
    assume "m \<in> set (pass (Some sec) (m' # ls))"
    then have "origin m (m' # ls)" by (rule section_inf(4))
    then show ?thesis by (rule origin_Cons)
  qed
next
  case (section_media cur l sec m' ls)
  from section_media(1-3,5) have "m = section_line l sec \<or> m = m' \<or> m \<in> set (pass (Some sec) ls)"
    by (simp add: pass_section_media)
  then show ?case
  proof (elim disjE)
    assume "m = section_line l sec"
    with section_media(1,2) show ?thesis by (simp add: origin_here_section)
  next
    assume "m = m'"
    with section_media(3) show ?thesis by (simp add: origin_line)
  next
    assume "m \<in> set (pass (Some sec) ls)"
    then have "origin m ls" by (rule section_media(4))
    then have "origin m ([l, m'] @ ls)" by (rule origin_suffix)
    then show ?thesis by simp
  qed
next
  case (entry_end cur l ls)
  have "pass cur (l # ls) = [entry_line cur l []]"
    using entry_end(1-3) by (rule pass_entry_end)
  with entry_end(4) have "m = entry_line cur l []" by simp
  then have "m = entry_line cur l (dropWhile is_hash ls)" by (simp only: entry_end(3))
  with entry_end(1,2) show ?case by (simp add: origin_here_entry)
next
  case (entry_blank cur l ls r)
  have split: "ls = takeWhile is_hash ls @ [] # r"
    using entry_blank(3) takeWhile_dropWhile_id[of is_hash ls] by simp
  have "pass cur (l # ls) = entry_line cur l ([] # r) # pass cur ([] # r)"
    using entry_blank(1-3) by (rule pass_entry_blank)
  with entry_blank(5) have "m = entry_line cur l ([] # r) \<or> m \<in> set (pass cur ([] # r))"
    by simp
  then have "m = entry_line cur l (dropWhile is_hash ls) \<or> m \<in> set (pass cur ([] # r))"
    by (simp only: entry_blank(3))
  then show ?case
  proof
    assume "m = entry_line cur l (dropWhile is_hash ls)"
    with entry_blank(1,2) show ?thesis by (simp add: origin_here_entry)
  next
    assume "m \<in> set (pass cur ([] # r))"
    then have "origin m ([] # r)" by (rule entry_blank(4))
    then have "origin m ((l # takeWhile is_hash ls) @ [] # r)" by (rule origin_suffix)
    with split show ?thesis by simp
  qed
next
  case (entry_url cur l ls u r)
  have split: "ls = takeWhile is_hash ls @ u # r"
    using entry_url(3) takeWhile_dropWhile_id[of is_hash ls] by simp
  have nh: "\<not> is_hash u"
    using entry_url(3) hd_dropWhile[of is_hash ls] by auto
  have "pass cur (l # ls) = entry_line cur l (u # r) # u # pass cur r"
    using entry_url(1-4) by (rule pass_entry_url)
  with entry_url(6) have "m = entry_line cur l (u # r) \<or> m = u \<or> m \<in> set (pass cur r)"
    by simp
  then have "m = entry_line cur l (dropWhile is_hash ls) \<or> m = u \<or> m \<in> set (pass cur r)"
    by (simp only: entry_url(3))
  then show ?case
  proof (elim disjE)
    assume "m = entry_line cur l (dropWhile is_hash ls)"
    with entry_url(1,2) show ?thesis by (simp add: origin_here_entry)
  next
    assume "m = u"
    moreover have "u \<in> set (l # ls)" using split by (metis in_set_conv_decomp list.set_intros(2))
    moreover have "\<not> is_inf u" using nh is_inf_hash by blast
    ultimately show ?thesis by (simp add: origin_line)
  next
    assume "m \<in> set (pass cur r)"
    then have "origin m r" by (rule entry_url(5))
    then have "origin m ((l # takeWhile is_hash ls @ [u]) @ r)" by (rule origin_suffix)
    with split show ?thesis by simp
  qed
qed


lemma sanitize_id_nonempty: "sanitize_id name \<noteq> []"
  by (simp add: sanitize_id_def Let_def py_def)

lemma default_logos_values: "v \<in> snd ` set DEFAULT_LOGOS \<Longrightarrow> v \<noteq> [] \<and> 44 \<notin> set v"
  by (auto simp: DEFAULT_LOGOS_def logo_hizli_def py_def)

lemma default_logo_value: "default_logo k \<in> snd ` set DEFAULT_LOGOS"
proof (cases "map_of DEFAULT_LOGOS k")
  case None
  have "map_of DEFAULT_LOGOS (py ''DEFAULT'') = Some logo_hizli"
    by (simp add: DEFAULT_LOGOS_def SINEMALAR_def FILMLER_def py_def)
  with None have "default_logo k = logo_hizli" by (simp add: default_logo_def)
  then show ?thesis by (simp add: DEFAULT_LOGOS_def)
next
  case (Some v)
  then have "(k, v) \<in> set DEFAULT_LOGOS" by (rule map_of_SomeD)
  moreover from Some have "default_logo k = v" by (simp add: default_logo_def)
  ultimately show ?thesis by force
qed

lemma default_logo_nonempty: "default_logo k \<noteq> []"
  using default_logos_values default_logo_value by blast

lemma or_else_nonempty: "d \<noteq> [] \<Longrightarrow> or_else x d \<noteq> []"
  by (simp add: or_else_def split: option.splits)

lemma default_group_nonempty: "or_else cur (py ''DEFAULT'') \<noteq> []"
  by (rule or_else_nonempty) (simp add: py_def)

lemma entry_name_empty:
  "entry_name l rest = [] \<longleftrightarrow> title_of l = [] \<and> (case rest of [] \<Rightarrow> True | u # r \<Rightarrow> u = [])"
  by (simp add: entry_name_def or_else_def split: list.splits)

lemma no_section_without_title: "first_section SECTION_KEYWORDS [] = None"
  by (simp add: SECTION_KEYWORDS_def lits_def)

lemma section_title_nonempty: "section_of l = Some sec \<Longrightarrow> title_of l \<noteq> []"
  using no_section_without_title by (auto simp: section_of_def)

subsection \<open>Attributes of the source line\<close>

text \<open>
  Claim C3 on the code. A section marker \<open>Belgesel\<close> is followed by an entry whose line
  carries \<open>group-title="Spor"\<close>. The precedence of the claim gives the entry the group
  \<open>Spor\<close>; the code emits it with the group of the section marker, \<open>BELGESEL\<close>.
  \<open>ATTR_RE\<close> reads the key of \<open>group-title="Spor"\<close> as \<open>title\<close>, a hyphen not being a
  word character, so the dictionary never holds the key \<open>group-title\<close>.
\<close>

theorem group_title_attribute_ignored:
  "main (\<lambda>c. False)
     [py ''#EXTINF:-1,Belgesel'', py ''http://a'',
      py ''#EXTINF:-1 group-title=\"Spor\",TRT Spor'', py ''http://b''] =
     [py ''#EXTINF:-1 tvg-id=\"Belgesel\" tvg-name=\"Belgesel\" tvg-logo=\"https://upload.wikimedia.org/wikipedia/commons/1/1b/Documentary_icon.png\" group-title=\"BELGESEL\",Belgesel'',
      py ''http://a'',
      py ''#EXTINF:-1 tvg-id=\"TRT.Spor\" tvg-name=\"TRT Spor\" tvg-logo=\"https://upload.wikimedia.org/wikipedia/commons/1/1b/Documentary_icon.png\" group-title=\"BELGESEL\",TRT Spor'',
      py ''http://b'']"
  by (simp add: main_eq str_eval rx_eval fn_eval pass_eval)

text \<open>
  Claim C9 on the code. The line of an ordinary entry carries \<open>tvg-id="trt1"\<close> and
  \<open>tvg-name="TRT 1 HD"\<close> and the title \<open>TRT 1\<close>. The precedence of the claim keeps both
  attributes; the code emits \<open>tvg-name="TRT 1"\<close>, taken from the title, and
  \<open>tvg-id="TRT.1"\<close>, derived from it. \<open>ATTR_RE\<close> reads the keys as \<open>id\<close> and \<open>name\<close>.
\<close>

theorem tvg_name_attribute_ignored:
  "main (\<lambda>c. False) [py ''#EXTINF:-1 tvg-id=\"trt1\" tvg-name=\"TRT 1 HD\",TRT 1'', py ''http://x''] =
     [py ''#EXTINF:-1 tvg-id=\"TRT.1\" tvg-name=\"TRT 1\" tvg-logo=\"https://i.hizliresim.com/i21k4te.png\" group-title=\"DEFAULT\",TRT 1'',
      py ''http://x'']"
  by (simp add: main_eq str_eval rx_eval fn_eval pass_eval)

subsection \<open>The filled fields of an emitted metadata line\<close>

text \<open>
  Claim C1 as it is stated fails: an entry with no title and no line after it is emitted
  from a dictionary whose \<open>tvg-name\<close> is the empty string, and its line has no
  \<open>tvg-name\<close> at all.
\<close>

theorem missing_name_counterexample:
  "main (\<lambda>c. False) [py ''#EXTINF:-1,''] =
     [build_extinf
        (Map.empty(py ''tvg-id'' \<mapsto> py ''unknown'', py ''tvg-name'' \<mapsto> [],
                   py ''tvg-logo'' \<mapsto> py ''https://i.hizliresim.com/i21k4te.png'',
                   py ''group-title'' \<mapsto> py ''DEFAULT''))
        []] \<and>
   main (\<lambda>c. False) [py ''#EXTINF:-1,''] =
     [py ''#EXTINF:-1 tvg-id=\"unknown\" tvg-logo=\"https://i.hizliresim.com/i21k4te.png\" group-title=\"DEFAULT\",'']"
  by (simp add: main_eq str_eval rx_eval fn_eval pass_eval)

text \<open>
  Claim C1, amended. Every metadata line that the pass emits is the line built from a
  dictionary in which \<open>tvg-id\<close>, \<open>tvg-logo\<close> and \<open>group-title\<close> are not empty and
  \<open>tvg-name\<close> is the title written on the line. \<open>tvg-name\<close> is empty, and then left out
  of the line, only for a metadata line of the normalized input that has no title and
  whose scan over the following lines that start with \<open>#\<close> ends at the end of the input
  or at a blank line.
\<close>

theorem emitted_metadata_fields:
  "\<forall>m\<in>set (main U raw). py_startswith (py_upper m) (py ''#EXTINF'') \<longrightarrow>
     (\<exists>name grp logo.
        m = build_extinf
              (Map.empty(py ''tvg-id'' \<mapsto> sanitize_id name, py ''tvg-name'' \<mapsto> name,
                         py ''tvg-logo'' \<mapsto> logo, py ''group-title'' \<mapsto> grp))
              name \<and>
        sanitize_id name \<noteq> [] \<and> logo \<noteq> [] \<and> grp \<noteq> [] \<and>
        (name = [] \<longrightarrow>
           (\<exists>pre l ls. normalize_lines raw = pre @ l # ls \<and>
              py_startswith (py_upper l) (py ''#EXTINF'') \<and>
              snd (parse_extinf_attrs U l) = [] \<and>
              (case dropWhile (\<lambda>x. py_startswith x (py ''#'')) ls of
                 [] \<Rightarrow> True
               | u # r \<Rightarrow> u = []))))"
proof (intro ballI impI)
  fix m
  assume m: "m \<in> set (main U raw)" and inf: "py_startswith (py_upper m) (py ''#EXTINF'')"
  let ?goal = "\<lambda>m. \<exists>name grp logo.
        m = build_extinf
              (Map.empty(py ''tvg-id'' \<mapsto> sanitize_id name, py ''tvg-name'' \<mapsto> name,
                         py ''tvg-logo'' \<mapsto> logo, py ''group-title'' \<mapsto> grp))
              name \<and>
        sanitize_id name \<noteq> [] \<and> logo \<noteq> [] \<and> grp \<noteq> [] \<and>
        (name = [] \<longrightarrow>
           (\<exists>pre l ls. normalize_lines raw = pre @ l # ls \<and>
              py_startswith (py_upper l) (py ''#EXTINF'') \<and>
              snd (parse_extinf_attrs U l) = [] \<and>
              (case dropWhile (\<lambda>x. py_startswith x (py ''#'')) ls of
                 [] \<Rightarrow> True
               | u # r \<Rightarrow> u = [])))"
  have h: "is_hash = (\<lambda>x. py_startswith x (py ''#''))"
    by (rule ext) (simp add: is_hash_def)
  from m have "origin m (normalize_lines raw)" unfolding main_eq by (rule pass_origin)
  moreover from inf have "is_inf m" by (simp add: is_inf_def)
  moreover then have "m \<noteq> py ''#EXTM3U''" by (auto simp: is_inf_def str_eval)
  ultimately obtain pre l ls where d: "normalize_lines raw = pre @ l # ls" and l: "is_inf l"
    and c: "(\<exists>sec. section_of l = Some sec \<and> m = section_line l sec) \<or>
      (\<exists>cur. section_of l = None \<and> m = entry_line cur l (dropWhile is_hash ls))"
    unfolding origin_def by blast
  from c show "?goal m"
  proof (elim disjE exE conjE)
    fix sec assume s: "section_of l = Some sec" and ms: "m = section_line l sec"
    from s have "sec \<noteq> []" unfolding section_of_def by (rule section_nonempty)
    moreover from s have "title_of l \<noteq> []" by (rule section_title_nonempty)
    ultimately show "?goal m"
      unfolding ms section_line_def canon_def
      using sanitize_id_nonempty default_logo_nonempty by blast
  next
    fix cur assume s: "section_of l = None"
      and me: "m = entry_line cur l (dropWhile is_hash ls)"
    have "entry_name l (dropWhile is_hash ls) = [] \<longrightarrow>
       (\<exists>pre l ls. normalize_lines raw = pre @ l # ls \<and>
              py_startswith (py_upper l) (py ''#EXTINF'') \<and>
              snd (parse_extinf_attrs U l) = [] \<and>
              (case dropWhile (\<lambda>x. py_startswith x (py ''#'')) ls of
                 [] \<Rightarrow> True
               | u # r \<Rightarrow> u = []))"
      using d l unfolding entry_name_empty h[symmetric] parsed_title is_inf_def by blast
    then show "?goal m"
      unfolding me entry_line_def canon_def
      using sanitize_id_nonempty default_logo_nonempty default_group_nonempty by blast
  qed
qed


theorem emitted_metadata_fields_witness:
  "py_startswith
     (py_upper (hd (main (\<lambda>c. False) [py ''#EXTINF:-1,TRT 1'', py ''http://x''])))
     (py ''#EXTINF'') \<and>
   (\<exists>name grp logo.
      hd (main (\<lambda>c. False) [py ''#EXTINF:-1,TRT 1'', py ''http://x'']) =
        build_extinf
          (Map.empty(py ''tvg-id'' \<mapsto> sanitize_id name, py ''tvg-name'' \<mapsto> name,
                     py ''tvg-logo'' \<mapsto> logo, py ''group-title'' \<mapsto> grp))
          name \<and>
      sanitize_id name \<noteq> [] \<and> logo \<noteq> [] \<and> grp \<noteq> [])"
proof -
  have e: "main (\<lambda>c. False) [py ''#EXTINF:-1,TRT 1'', py ''http://x''] =
     [py ''#EXTINF:-1 tvg-id=\"TRT.1\" tvg-name=\"TRT 1\" tvg-logo=\"https://i.hizliresim.com/i21k4te.png\" group-title=\"DEFAULT\",TRT 1'',
      py ''http://x'']"
    by (simp add: main_eq str_eval rx_eval fn_eval pass_eval)
  have i: "py_startswith
     (py_upper (hd (main (\<lambda>c. False) [py ''#EXTINF:-1,TRT 1'', py ''http://x''])))
     (py ''#EXTINF'')"
    unfolding e by (simp add: str_eval)
  have "hd (main (\<lambda>c. False) [py ''#EXTINF:-1,TRT 1'', py ''http://x''])
      \<in> set (main (\<lambda>c. False) [py ''#EXTINF:-1,TRT 1'', py ''http://x''])"
    unfolding e by simp
  with emitted_metadata_fields[of "\<lambda>c. False" "[py ''#EXTINF:-1,TRT 1'', py ''http://x'']"] i
  show ?thesis by blast
qed


subsection \<open>Running the pass on its own output\<close>

subsubsection \<open>The title of a built line, read again\<close>

lemma py_upper_append: "py_upper (a @ b) = py_upper a @ py_upper b"
  by (simp add: py_upper_def)

lemma canon_shape:
  "canon name grp logo =
     py ''#EXTINF:-1 '' @
     py_join [32]
       (build_parts
          (Map.empty(py ''tvg-id'' \<mapsto> sanitize_id name, py ''tvg-name'' \<mapsto> name,
                     py ''tvg-logo'' \<mapsto> logo, py ''group-title'' \<mapsto> grp))
          attr_order) @
     [44] @ name"
  by (simp add: canon_def build_extinf_def)

lemma is_inf_prefix: "is_inf (py ''#EXTINF:-1 '' @ rest)"
  unfolding is_inf_def py_upper_append by (simp add: str_eval)

lemma is_inf_canon: "is_inf (canon name grp logo)"
  unfolding canon_shape by (rule is_inf_prefix)

lemma canon_nonempty: "canon name grp logo \<noteq> []"
  unfolding canon_shape by (simp add: py_def)

lemma py_join_no_comma:
  "\<forall>p\<in>set ps. 44 \<notin> set p \<Longrightarrow> 44 \<notin> set (py_join [32] ps)"
  by (induction "[32::nat]" ps rule: py_join.induct) auto

lemma build_parts_no_comma:
  assumes "\<forall>k\<in>set ks. 44 \<notin> set k \<and> (\<forall>v. attrs k = Some v \<longrightarrow> 44 \<notin> set v)"
  shows "\<forall>p\<in>set (build_parts attrs ks). 44 \<notin> set p"
  using assms by (induction ks) (auto simp: truthy_def split: option.splits)

lemma sanitize_id_no_comma: "44 \<notin> set (sanitize_id name)"
  by (auto simp: sanitize_id_def Let_def id_char_def py_def)

lemma canon_attrs_no_comma:
  assumes "44 \<notin> set name" "44 \<notin> set grp" "44 \<notin> set logo"
  shows "44 \<notin> set (py_join [32]
       (build_parts
          (Map.empty(py ''tvg-id'' \<mapsto> sanitize_id name, py ''tvg-name'' \<mapsto> name,
                     py ''tvg-logo'' \<mapsto> logo, py ''group-title'' \<mapsto> grp))
          attr_order))"
proof (rule py_join_no_comma, rule build_parts_no_comma)
  have k: "44 \<notin> set (py ''tvg-id'')" "44 \<notin> set (py ''tvg-name'')" "44 \<notin> set (py ''tvg-logo'')"
    "44 \<notin> set (py ''group-title'')"
    by (simp_all add: py_def)
  show "\<forall>k\<in>set attr_order. 44 \<notin> set k \<and>
     (\<forall>v. (Map.empty(py ''tvg-id'' \<mapsto> sanitize_id name, py ''tvg-name'' \<mapsto> name,
                     py ''tvg-logo'' \<mapsto> logo, py ''group-title'' \<mapsto> grp)) k = Some v
          \<longrightarrow> 44 \<notin> set v)"
    using assms k sanitize_id_no_comma[of name]
    by (auto simp: attr_order_def keys_distinct)
qed

lemma extinf_title_built:
  assumes "44 \<notin> set attrs" "10 \<notin> set t"
  shows "extinf_title (py ''#EXTINF:-1 '' @ attrs @ [44] @ t) = Some t"
proof -
  have p: "py ''#EXTINF:-1 '' = py ''#EXTINF'' @ py '':-1 ''" by (simp add: py_def)
  have l7: "length (py ''#EXTINF'') = 7" by (simp add: py_def)
  have m: "list_all2 lit_ignorecase (py ''#EXTINF'') (py ''#EXTINF'')"
    by (simp add: py_def lit_ignorecase_def sre_lower_def ignorecase_fixes_def)
  have nc: "\<forall>c\<in>set (py '':-1 '' @ attrs). c \<noteq> 44" using assms(1) by (auto simp: py_def)
  have d: "dropWhile (\<lambda>c. c \<noteq> 44) ((py '':-1 '' @ attrs) @ 44 # t) = 44 # t"
    using nc by (simp add: dropWhile_append3)
  have n: "dropWhile (\<lambda>c. c \<noteq> 10) t = []" "takeWhile (\<lambda>c. c \<noteq> 10) t = t"
    using assms(2) by (auto simp: takeWhile_eq_all_conv)
  have "extinf_title ((py ''#EXTINF'' @ (py '':-1 '' @ attrs) @ 44 # t)) = Some t"
    unfolding extinf_title_def using l7 m d n by simp
  then show ?thesis unfolding p by simp
qed


lemma set_py_strip: "set (py_strip s) \<subseteq> set s"
proof
  fix c assume "c \<in> set (py_strip s)"
  then have "c \<in> set (dropWhile py_isspace (rev (dropWhile py_isspace s)))"
    by (simp add: py_strip_def py_lstrip_def py_rstrip_def)
  then have "c \<in> set (rev (dropWhile py_isspace s))" by (rule set_dropWhileD)
  then have "c \<in> set (dropWhile py_isspace s)" by simp
  then show "c \<in> set s" by (rule set_dropWhileD)
qed

lemma extinf_title_no_newline: "extinf_title line = Some t \<Longrightarrow> 10 \<notin> set t"
  by (auto simp: extinf_title_def Let_def split: if_splits list.splits dest: set_takeWhileD)

lemma title_of_no_newline: "10 \<notin> set (title_of l)"
proof (cases "extinf_title l")
  case None
  then show ?thesis by (simp add: title_of_def)
next
  case (Some t)
  then have "10 \<notin> set t" by (rule extinf_title_no_newline)
  with set_py_strip[of t] Some show ?thesis by (auto simp: title_of_def)
qed

lemma title_of_stripped: "py_strip (title_of l) = title_of l"
  by (cases "extinf_title l") (simp_all add: title_of_def py_strip_Nil py_strip_idem)

lemma title_of_canon:
  assumes "44 \<notin> set name" "10 \<notin> set name" "py_strip name = name"
    "44 \<notin> set grp" "44 \<notin> set logo"
  shows "title_of (canon name grp logo) = name"
proof -
  have "extinf_title (canon name grp logo) = Some name"
    unfolding canon_shape
    using canon_attrs_no_comma[OF assms(1,4,5)] assms(2) by (rule extinf_title_built)
  then show ?thesis by (simp add: title_of_def assms(3))
qed

lemma section_key_no_comma: "sec \<in> fst ` set SECTION_KEYWORDS \<Longrightarrow> 44 \<notin> set sec"
  by (auto simp: SECTION_KEYWORDS_def SINEMALAR_def FILMLER_def py_def)

lemma section_of_key: "section_of l = Some sec \<Longrightarrow> sec \<in> fst ` set SECTION_KEYWORDS"
  unfolding section_of_def by (rule first_section_key)

lemma valid_group_section: "section_of l = Some sec \<Longrightarrow> valid_group (Some sec)"
  using section_of_key by (auto simp: valid_group_def)

lemma default_group_no_comma: "valid_group cur \<Longrightarrow> 44 \<notin> set (or_else cur (py ''DEFAULT''))"
proof -
  assume v: "valid_group cur"
  have d: "44 \<notin> set (py ''DEFAULT'')" by (simp add: py_def)
  show ?thesis
  proof (cases cur)
    case None
    with d show ?thesis by (simp add: or_else_def)
  next
    case (Some sec)
    with v have "sec \<in> fst ` set SECTION_KEYWORDS" by (auto simp: valid_group_def)
    then have "44 \<notin> set sec" by (rule section_key_no_comma)
    with d Some show ?thesis by (simp add: or_else_def)
  qed
qed

lemma default_logo_no_comma: "44 \<notin> set (default_logo k)"
  using default_logos_values default_logo_value by blast

lemma title_of_section_line:
  assumes "section_of l = Some sec" "44 \<notin> set (title_of l)"
  shows "title_of (section_line l sec) = title_of l"
  unfolding section_line_def
  using assms(2) title_of_no_newline title_of_stripped
    section_key_no_comma[OF section_of_key[OF assms(1)]] default_logo_no_comma
  by (rule title_of_canon)

lemma section_line_fixed:
  assumes "section_of l = Some sec" "44 \<notin> set (title_of l)"
  shows "section_of (section_line l sec) = Some sec"
    and "section_line (section_line l sec) sec = section_line l sec"
  using assms title_of_section_line[OF assms]
  by (simp_all add: section_of_def section_line_def)

lemma entry_name_title: "title_of l \<noteq> [] \<Longrightarrow> entry_name l rest = title_of l"
  by (simp add: entry_name_def or_else_def)

lemma title_of_entry_line:
  assumes "title_of l \<noteq> []" "44 \<notin> set (title_of l)" "valid_group cur"
  shows "title_of (entry_line cur l rest) = title_of l"
  unfolding entry_line_def entry_name_title[OF assms(1)]
  using assms(2) title_of_no_newline title_of_stripped
    default_group_no_comma[OF assms(3)] default_logo_no_comma
  by (rule title_of_canon)

lemma entry_line_fixed:
  assumes "title_of l \<noteq> []" "44 \<notin> set (title_of l)" "valid_group cur"
  shows "section_of (entry_line cur l rest) = section_of l"
    and "entry_line cur (entry_line cur l rest) rest' = entry_line cur l rest"
  using title_of_entry_line[OF assms, of rest] assms(1)
  by (simp_all add: section_of_def entry_line_def entry_name_title)

lemma is_inf_section_line: "is_inf (section_line l sec)"
  unfolding section_line_def by (rule is_inf_canon)

lemma is_inf_entry_line: "is_inf (entry_line cur l rest)"
  unfolding entry_line_def by (rule is_inf_canon)


subsubsection \<open>The loop on its own output\<close>

lemma plain_titles_Cons: "plain_titles (l # ls) \<Longrightarrow> plain_titles ls"
  by (simp add: plain_titles_def)

lemma plain_titles_dropWhile: "plain_titles ls \<Longrightarrow> plain_titles (dropWhile P ls)"
  by (auto simp: plain_titles_def dest: set_dropWhileD)

lemma plain_titles_head:
  "plain_titles (l # ls) \<Longrightarrow> is_inf l \<Longrightarrow> title_of l \<noteq> [] \<and> 44 \<notin> set (title_of l)"
  by (simp add: plain_titles_def)

lemma is_m3u_header: "is_m3u (py ''#EXTM3U'')"
  by (simp add: is_m3u_def str_eval)

lemma blank_not_hash: "\<not> is_hash []"
  by (simp add: is_hash_def py_startswith_def py_def)

lemma blank_not_inf: "\<not> is_inf []"
  using is_inf_hash blank_not_hash by blast

lemma blank_not_m3u: "\<not> is_m3u []"
  by (simp add: is_m3u_def py_startswith_def py_upper_def py_def)

lemma pass_inf_head: "is_inf m \<Longrightarrow> \<exists>h t. pass cur (m # ls) = h # t \<and> is_inf h"
proof -
  assume i: "is_inf m"
  then have n: "\<not> is_m3u m" by (rule inf_not_m3u)
  show ?thesis
  proof (cases "section_of m")
    case (Some sec)
    with i n show ?thesis
      by (cases ls) (auto simp: pass.simps(2)[of cur m] is_inf_section_line)
  next
    case None
    with i n show ?thesis
      by (auto simp: pass.simps(2)[of cur m] is_inf_entry_line)
  qed
qed

lemma pass_idem:
  "valid_group cur \<Longrightarrow> plain_titles xs \<Longrightarrow> pass cur (pass cur xs) = pass cur xs"
proof (induction cur xs rule: pass_cases_induct)
  case (Nil cur)
  show ?case by simp
next
  case (m3u cur l ls)
  from m3u(4) have "plain_titles ls" by (rule plain_titles_Cons)
  with m3u(2,3) have "pass cur (pass cur ls) = pass cur ls" by simp
  with m3u(1) show ?case by (simp add: pass_m3u is_m3u_header)
next
  case (other cur l ls)
  from other(5) have "plain_titles ls" by (rule plain_titles_Cons)
  with other(3,4) have "pass cur (pass cur ls) = pass cur ls" by simp
  with other(1,2) show ?case by (simp add: pass_other)
next
  case (section_end cur l sec)
  from section_end(1,4) have c: "44 \<notin> set (title_of l)" using plain_titles_head by blast
  note f = section_line_fixed[OF section_end(2) c]
  show ?case
    unfolding pass_section_end[OF section_end(1,2)]
    using pass_section_end[OF is_inf_section_line f(1), of cur] f(2) by simp
next
  case (section_inf cur l sec m ls)
  from section_inf(1,6) have c: "44 \<notin> set (title_of l)" using plain_titles_head by blast
  note f = section_line_fixed[OF section_inf(2) c]
  from section_inf(6) have p: "plain_titles (m # ls)" by (rule plain_titles_Cons)
  from section_inf(2) have v: "valid_group (Some sec)" by (rule valid_group_section)
  from section_inf(4)[OF v p]
  have ih: "pass (Some sec) (pass (Some sec) (m # ls)) = pass (Some sec) (m # ls)" .
  obtain h t where ht: "pass (Some sec) (m # ls) = h # t" and h: "is_inf h"
    using pass_inf_head[OF section_inf(3)] by blast
  have "pass cur (section_line l sec # h # t) = section_line l sec # pass (Some sec) (h # t)"
    using pass_section_inf[OF is_inf_section_line f(1) h, of cur t] f(2) by simp
  with ih show ?case
    unfolding pass_section_inf[OF section_inf(1,2,3)] ht by simp
next
  case (section_media cur l sec m ls)
  from section_media(1,6) have c: "44 \<notin> set (title_of l)" using plain_titles_head by blast
  note f = section_line_fixed[OF section_media(2) c]
  from section_media(6) have p: "plain_titles ls"
    using plain_titles_Cons by blast
  from section_media(2) have v: "valid_group (Some sec)" by (rule valid_group_section)
  from section_media(4)[OF v p]
  have ih: "pass (Some sec) (pass (Some sec) ls) = pass (Some sec) ls" .
  have "pass cur (section_line l sec # m # pass (Some sec) ls) =
      section_line l sec # m # pass (Some sec) (pass (Some sec) ls)"
    using pass_section_media[OF is_inf_section_line f(1) section_media(3), of cur] f(2) by simp
  with ih show ?case
    unfolding pass_section_media[OF section_media(1,2,3)] by simp
next
  case (entry_end cur l ls)
  from entry_end(1,5) have c: "title_of l \<noteq> []" "44 \<notin> set (title_of l)"
    using plain_titles_head by blast+
  note f = entry_line_fixed[OF c entry_end(4)]
  have s: "section_of (entry_line cur l []) = None" using f(1) entry_end(2) by simp
  have "pass cur [entry_line cur l []] = [entry_line cur (entry_line cur l []) []]"
    using pass_entry_end[OF is_inf_entry_line s, of "[]" cur] by simp
  then show ?case
    unfolding pass_entry_end[OF entry_end(1,2,3)] using f(2) by simp
next
  case (entry_blank cur l ls r)
  from entry_blank(1,6) have c: "title_of l \<noteq> []" "44 \<notin> set (title_of l)"
    using plain_titles_head by blast+
  note f = entry_line_fixed[OF c entry_blank(5)]
  have s: "section_of (entry_line cur l ([] # r)) = None" using f(1) entry_blank(2) by simp
  from entry_blank(6) have "plain_titles (dropWhile is_hash ls)"
    using plain_titles_Cons plain_titles_dropWhile by blast
  then have p: "plain_titles ([] # r)" by (simp only: entry_blank(3))
  from entry_blank(4)[OF entry_blank(5) p]
  have ih: "pass cur (pass cur ([] # r)) = pass cur ([] # r)" .
  have o: "pass cur ([] # r) = [] # pass cur r"
    using blank_not_m3u blank_not_inf by (rule pass_other)
  have d: "dropWhile is_hash ([] # pass cur r) = [] # pass cur r"
    using blank_not_hash by simp
  have "pass cur (entry_line cur l ([] # r) # [] # pass cur r) =
      entry_line cur (entry_line cur l ([] # r)) ([] # pass cur r) # pass cur ([] # pass cur r)"
    using is_inf_entry_line s d by (rule pass_entry_blank)
  with ih show ?case
    unfolding pass_entry_blank[OF entry_blank(1,2,3)] o using f(2) by simp
next
  case (entry_url cur l ls u r)
  from entry_url(1,7) have c: "title_of l \<noteq> []" "44 \<notin> set (title_of l)"
    using plain_titles_head by blast+
  note f = entry_line_fixed[OF c entry_url(6)]
  have s: "section_of (entry_line cur l (u # r)) = None" using f(1) entry_url(2) by simp
  from entry_url(7) have "plain_titles (dropWhile is_hash ls)"
    using plain_titles_Cons plain_titles_dropWhile by blast
  then have "plain_titles (u # r)" by (simp only: entry_url(3))
  then have p: "plain_titles r" by (rule plain_titles_Cons)
  from entry_url(5)[OF entry_url(6) p] have ih: "pass cur (pass cur r) = pass cur r" .
  have nh: "\<not> is_hash u" using entry_url(3) hd_dropWhile[of is_hash ls] by auto
  then have d: "dropWhile is_hash (u # pass cur r) = u # pass cur r" by simp
  have "pass cur (entry_line cur l (u # r) # u # pass cur r) =
      entry_line cur (entry_line cur l (u # r)) (u # pass cur r) # u # pass cur (pass cur r)"
    using is_inf_entry_line s d entry_url(4) by (rule pass_entry_url)
  with ih show ?case
    unfolding pass_entry_url[OF entry_url(1,2,3,4)] using f(2) by simp
qed


subsubsection \<open>The output is a fixed point of the Line Normalizer\<close>

lemma tidy_Nil: "tidy []"
  by (simp add: tidy_def)

lemma tidy_Cons_nonblank: "a \<noteq> [] \<Longrightarrow> tidy (a # xs) \<longleftrightarrow> tidy xs"
  by (cases xs) (auto simp: tidy_def)

lemma tidy_Cons_blank: "tidy ([] # xs) \<longleftrightarrow> xs \<noteq> [] \<and> hd xs \<noteq> [] \<and> tidy xs"
  by (cases xs) (auto simp: tidy_def)

lemma tidy_Cons: "tidy (a # xs) \<Longrightarrow> tidy xs"
  by (cases "a = []") (simp_all add: tidy_Cons_blank tidy_Cons_nonblank)

lemma tidy_suffix: "tidy (p @ xs) \<Longrightarrow> tidy xs"
  by (induction p) (auto dest: tidy_Cons)

lemma tidy_dropWhile: "tidy xs \<Longrightarrow> tidy (dropWhile P xs)"
  using tidy_suffix[of "takeWhile P xs" "dropWhile P xs"] by simp

lemma collapse_no_double:
  "no_double_blank xs \<Longrightarrow> (pb \<longrightarrow> xs = [] \<or> hd xs \<noteq> []) \<Longrightarrow> collapse pb xs = xs"
proof (induction xs arbitrary: pb)
  case Nil
  show ?case by simp
next
  case (Cons x xs)
  from Cons.prems(1) have n: "no_double_blank xs" and h: "x = [] \<longrightarrow> xs = [] \<or> hd xs \<noteq> []"
    by (simp_all add: no_double_blank_Cons)
  show ?case
  proof (cases "x = []")
    case True
    with Cons.prems(2) have "\<not> pb" by simp
    moreover from True h n have "collapse True xs = xs" by (intro Cons.IH) simp_all
    ultimately show ?thesis using True by simp
  next
    case False
    from n have "collapse False xs = xs" by (intro Cons.IH) simp_all
    with False show ?thesis by simp
  qed
qed

lemma normalize_lines_fixed:
  assumes s: "\<forall>l\<in>set xs. py_strip l = l" and t: "tidy xs"
  shows "normalize_lines xs = xs"
proof -
  from s have m: "map py_strip xs = xs" by (induction xs) simp_all
  from t have "collapse False xs = xs" by (intro collapse_no_double) (simp_all add: tidy_def)
  moreover from t have "dropWhile (\<lambda>l. l = []) (rev xs) = rev xs"
    by (cases xs rule: rev_cases) (auto simp: tidy_def)
  ultimately show ?thesis by (simp add: normalize_lines_eq m)
qed

lemma normalize_lines_tidy: "tidy (normalize_lines raw)"
  using normalize_lines_no_double normalize_lines_last by (simp add: tidy_def)

lemma normalize_lines_strip_fixed: "\<forall>l\<in>set (normalize_lines raw). py_strip l = l"
proof
  fix l assume "l \<in> set (normalize_lines raw)"
  then have "l = [] \<or> (\<not> py_isspace (hd l) \<and> \<not> py_isspace (last l))"
    using normalize_lines_stripped by blast
  then show "py_strip l = l" by (rule py_strip_fixed)
qed


lemma stripped_last: "py_strip name = name \<Longrightarrow> name \<noteq> [] \<Longrightarrow> \<not> py_isspace (last name)"
  using py_strip_ends[of name] by simp

lemma canon_stripped:
  assumes "py_strip name = name"
  shows "py_strip (canon name grp logo) = canon name grp logo"
proof (rule py_strip_fixed, rule disjI2, rule conjI)
  show "\<not> py_isspace (hd (canon name grp logo))"
    unfolding canon_shape by (simp add: py_def py_isspace_def)
  show "\<not> py_isspace (last (canon name grp logo))"
  proof (cases "name = []")
    case True
    then show ?thesis unfolding canon_shape by (simp add: py_isspace_def)
  next
    case False
    with assms have "\<not> py_isspace (last name)" by (rule stripped_last)
    with False show ?thesis unfolding canon_shape by simp
  qed
qed

lemma header_stripped: "py_strip (py ''#EXTM3U'') = py ''#EXTM3U''"
  by (simp add: str_eval)

lemma entry_name_stripped:
  assumes "\<forall>u\<in>set rest. py_strip u = u"
  shows "py_strip (entry_name l rest) = entry_name l rest"
proof (cases "title_of l = []")
  case False
  then show ?thesis by (simp add: entry_name_title title_of_stripped)
next
  case True
  then have "entry_name l rest = (case rest of [] \<Rightarrow> [] | u # r \<Rightarrow> u)"
    by (simp add: entry_name_def or_else_def)
  with assms show ?thesis by (cases rest) (simp_all add: py_strip_Nil)
qed

lemma pass_strip_fixed:
  assumes "\<forall>l\<in>set xs. py_strip l = l"
  shows "\<forall>m\<in>set (pass cur xs). py_strip m = m"
proof
  fix m assume "m \<in> set (pass cur xs)"
  then have "origin m xs" by (rule pass_origin)
  then consider "m = py ''#EXTM3U''" | "m \<in> set xs"
    | l sec where "m = section_line l sec"
    | pre l ls c where "xs = pre @ l # ls" "m = entry_line c l (dropWhile is_hash ls)"
    unfolding origin_def by blast
  then show "py_strip m = m"
  proof cases
    case 1
    then show ?thesis by (simp add: header_stripped)
  next
    case 2
    with assms show ?thesis by simp
  next
    case 3
    then show ?thesis by (simp add: section_line_def canon_stripped title_of_stripped)
  next
    case 4
    have "\<forall>u\<in>set (dropWhile is_hash ls). py_strip u = u"
      using assms 4(1) by (auto dest: set_dropWhileD)
    then have "py_strip (entry_name l (dropWhile is_hash ls)) = entry_name l (dropWhile is_hash ls)"
      by (rule entry_name_stripped)
    with 4(2) show ?thesis by (simp add: entry_line_def canon_stripped)
  qed
qed

lemma section_line_nonempty: "section_line l sec \<noteq> []"
  by (simp add: section_line_def canon_nonempty)

lemma entry_line_nonempty: "entry_line cur l rest \<noteq> []"
  by (simp add: entry_line_def canon_nonempty)

lemma header_nonempty: "py ''#EXTM3U'' \<noteq> []"
  by (simp add: py_def)

lemma pass_head_nonblank:
  "x \<noteq> [] \<Longrightarrow> pass cur (x # xs) \<noteq> [] \<and> hd (pass cur (x # xs)) \<noteq> []"
  by (auto simp: pass.simps(2)[of cur x] section_line_nonempty entry_line_nonempty header_nonempty
      split: option.splits list.splits)

lemma is_inf_nonempty: "is_inf l \<Longrightarrow> l \<noteq> []"
  using blank_not_inf by blast

lemma is_m3u_nonempty: "is_m3u l \<Longrightarrow> l \<noteq> []"
  using blank_not_m3u by blast

lemma tidy_blank_pass:
  assumes "tidy (a # xs)" "tidy (pass cur xs)"
  shows "tidy (a # pass cur xs)"
proof (cases "a = []")
  case False
  with assms(2) show ?thesis by (simp add: tidy_Cons_nonblank)
next
  case True
  with assms(1) have "xs \<noteq> []" "hd xs \<noteq> []" by (simp_all add: tidy_Cons_blank)
  then obtain x xs' where "xs = x # xs'" "x \<noteq> []" by (cases xs) auto
  with pass_head_nonblank[of x cur xs'] assms(2) True show ?thesis
    by (simp add: tidy_Cons_blank)
qed

lemma pass_tidy: "tidy xs \<Longrightarrow> tidy (pass cur xs)"
proof (induction cur xs rule: pass_cases_induct)
  case (Nil cur)
  show ?case by (simp add: tidy_Nil)
next
  case (m3u cur l ls)
  from m3u(3) have "tidy ls" by (rule tidy_Cons)
  then have "tidy (pass cur ls)" by (rule m3u(2))
  then show ?case by (simp add: pass_m3u[OF m3u(1)] tidy_Cons_nonblank header_nonempty)
next
  case (other cur l ls)
  from other(4) have "tidy ls" by (rule tidy_Cons)
  then have "tidy (pass cur ls)" by (rule other(3))
  with other(4) have "tidy (l # pass cur ls)" by (rule tidy_blank_pass)
  then show ?case by (simp add: pass_other[OF other(1,2)])
next
  case (section_end cur l sec)
  show ?case
    by (simp add: pass_section_end[OF section_end(1,2)] tidy_Cons_nonblank section_line_nonempty tidy_Nil)
next
  case (section_inf cur l sec m ls)
  from section_inf(5) have "tidy (m # ls)" by (rule tidy_Cons)
  then have "tidy (pass (Some sec) (m # ls))" by (rule section_inf(4))
  then show ?case
    by (simp add: pass_section_inf[OF section_inf(1,2,3)] tidy_Cons_nonblank section_line_nonempty)
next
  case (section_media cur l sec m ls)
  from section_media(5) have t: "tidy (m # ls)" by (rule tidy_Cons)
  then have "tidy ls" by (rule tidy_Cons)
  then have "tidy (pass (Some sec) ls)" by (rule section_media(4))
  with t have "tidy (m # pass (Some sec) ls)" by (rule tidy_blank_pass)
  then show ?case
    by (simp add: pass_section_media[OF section_media(1,2,3)] tidy_Cons_nonblank section_line_nonempty)
next
  case (entry_end cur l ls)
  show ?case
    by (simp add: pass_entry_end[OF entry_end(1,2,3)] tidy_Cons_nonblank entry_line_nonempty tidy_Nil)
next
  case (entry_blank cur l ls r)
  from entry_blank(5) have "tidy ls" by (rule tidy_Cons)
  then have "tidy (dropWhile is_hash ls)" by (rule tidy_dropWhile)
  then have "tidy ([] # r)" by (simp only: entry_blank(3))
  then have "tidy (pass cur ([] # r))" by (rule entry_blank(4))
  then show ?case
    by (simp add: pass_entry_blank[OF entry_blank(1,2,3)] tidy_Cons_nonblank entry_line_nonempty)
next
  case (entry_url cur l ls u r)
  from entry_url(6) have "tidy ls" by (rule tidy_Cons)
  then have "tidy (dropWhile is_hash ls)" by (rule tidy_dropWhile)
  then have "tidy (u # r)" by (simp only: entry_url(3))
  then have "tidy r" by (rule tidy_Cons)
  then have "tidy (pass cur r)" by (rule entry_url(5))
  then show ?case
    by (simp add: pass_entry_url[OF entry_url(1,2,3,4)] tidy_Cons_nonblank entry_line_nonempty
        entry_url(4))
qed


lemma valid_group_None: "valid_group None"
  by (simp add: valid_group_def)

lemma normalize_pass_fixed:
  "normalize_lines (pass cur (normalize_lines raw)) = pass cur (normalize_lines raw)"
  using pass_strip_fixed[OF normalize_lines_strip_fixed] pass_tidy[OF normalize_lines_tidy]
  by (rule normalize_lines_fixed)


text \<open>
  Claim C2 on the code. The first pass emits the entry with title \<open>A,B\<close> as a line that
  carries \<open>tvg-id="AB"\<close> and \<open>tvg-name="A,B"\<close>. The second pass does not find these
  attributes: \<open>ATTR_RE\<close> reads their keys as \<open>id\<close> and \<open>name\<close>, a hyphen not being a
  word character, so \<open>tvg-name\<close> and \<open>tvg-id\<close> are derived again from the title; and
  \<open>EXTINF_RE\<close> ends the prefix at the first comma, here the one inside the value of
  \<open>tvg-name\<close>, where the comment of \<open>parse_extinf_attrs\<close> says that the title is what
  follows the last comma. The output of the second pass differs from its input.
\<close>

theorem second_pass_differs:
  "main (\<lambda>c. False) [py ''#EXTINF:-1,A,B''] =
     [py ''#EXTINF:-1 tvg-id=\"AB\" tvg-name=\"A,B\" tvg-logo=\"https://i.hizliresim.com/i21k4te.png\" group-title=\"DEFAULT\",A,B''] \<and>
   main (\<lambda>c. False) (main (\<lambda>c. False) [py ''#EXTINF:-1,A,B'']) =
     [py ''#EXTINF:-1 tvg-id=\"B.tvg-logohttpsi.hizliresim.comi21k4te.png.group-titleDEFAULTAB\" tvg-name=\"B\" tvg-logo=\"https://i.hizliresim.com/i21k4te.png\" group-title=\"DEFAULT\",A,B\" tvg-logo=\"https://i.hizliresim.com/i21k4te.png\" group-title=\"DEFAULT\",B\" tvg-logo=\"https://i.hizliresim.com/i21k4te.png\" group-title=\"DEFAULT\",A,B''] \<and>
   main (\<lambda>c. False) (main (\<lambda>c. False) [py ''#EXTINF:-1,A,B''])
     \<noteq> main (\<lambda>c. False) [py ''#EXTINF:-1,A,B'']"
proof -
  have a: "main (\<lambda>c. False) [py ''#EXTINF:-1,A,B''] =
     [py ''#EXTINF:-1 tvg-id=\"AB\" tvg-name=\"A,B\" tvg-logo=\"https://i.hizliresim.com/i21k4te.png\" group-title=\"DEFAULT\",A,B'']"
    by (simp add: main_eq str_eval rx_eval fn_eval pass_eval)
  have b: "main (\<lambda>c. False)
     [py ''#EXTINF:-1 tvg-id=\"AB\" tvg-name=\"A,B\" tvg-logo=\"https://i.hizliresim.com/i21k4te.png\" group-title=\"DEFAULT\",A,B''] =
     [py ''#EXTINF:-1 tvg-id=\"B.tvg-logohttpsi.hizliresim.comi21k4te.png.group-titleDEFAULTAB\" tvg-name=\"B\" tvg-logo=\"https://i.hizliresim.com/i21k4te.png\" group-title=\"DEFAULT\",A,B\" tvg-logo=\"https://i.hizliresim.com/i21k4te.png\" group-title=\"DEFAULT\",B\" tvg-logo=\"https://i.hizliresim.com/i21k4te.png\" group-title=\"DEFAULT\",A,B'']"
    by (simp add: main_eq str_eval rx_eval fn_eval pass_eval)
  have c: "py ''#EXTINF:-1 tvg-id=\"B.tvg-logohttpsi.hizliresim.comi21k4te.png.group-titleDEFAULTAB\" tvg-name=\"B\" tvg-logo=\"https://i.hizliresim.com/i21k4te.png\" group-title=\"DEFAULT\",A,B\" tvg-logo=\"https://i.hizliresim.com/i21k4te.png\" group-title=\"DEFAULT\",B\" tvg-logo=\"https://i.hizliresim.com/i21k4te.png\" group-title=\"DEFAULT\",A,B''
     \<noteq> py ''#EXTINF:-1 tvg-id=\"AB\" tvg-name=\"A,B\" tvg-logo=\"https://i.hizliresim.com/i21k4te.png\" group-title=\"DEFAULT\",A,B''"
    by (simp add: py_def)
  show ?thesis unfolding a b using c by simp
qed


text \<open>
  How far the code as it is reproduces its own output: when, after line normalization,
  each metadata line has a title and the title has no comma, the second pass derives
  from each title the fields that the first pass derived, and returns its input.
\<close>

lemma second_pass_on_plain_titles:
  assumes "\<forall>l\<in>set (normalize_lines raw). py_startswith (py_upper l) (py ''#EXTINF'') \<longrightarrow>
     snd (parse_extinf_attrs U l) \<noteq> [] \<and> 44 \<notin> set (snd (parse_extinf_attrs U l))"
  shows "main U (main U raw) = main U raw"
proof -
  from assms have p: "plain_titles (normalize_lines raw)"
    by (simp add: plain_titles_def is_inf_def parsed_title)
  have "main U (main U raw) = pass None (normalize_lines (pass None (normalize_lines raw)))"
    by (simp only: main_eq)
  also have "\<dots> = pass None (pass None (normalize_lines raw))"
    by (simp only: normalize_pass_fixed)
  also have "\<dots> = pass None (normalize_lines raw)"
    using valid_group_None p by (rule pass_idem)
  finally show ?thesis by (simp only: main_eq)
qed

lemma second_pass_on_plain_titles_example:
  "main (\<lambda>c. False)
     (main (\<lambda>c. False) [py ''#EXTM3U'' @ [10], py ''#EXTINF:-1,TRT 1'' @ [10], py ''http://x'' @ [10]])
   = main (\<lambda>c. False) [py ''#EXTM3U'' @ [10], py ''#EXTINF:-1,TRT 1'' @ [10], py ''http://x'' @ [10]]"
proof -
  have n: "normalize_lines [py ''#EXTM3U'' @ [10], py ''#EXTINF:-1,TRT 1'' @ [10], py ''http://x'' @ [10]]
      = [py ''#EXTM3U'', py ''#EXTINF:-1,TRT 1'', py ''http://x'']"
    by (simp add: normalize_lines_def pop_blank.simps str_eval)
  have t: "title_of (py ''#EXTINF:-1,TRT 1'') = py ''TRT 1''"
    by (simp add: title_of_def str_eval rx_eval)
  have "\<forall>l\<in>set (normalize_lines [py ''#EXTM3U'' @ [10], py ''#EXTINF:-1,TRT 1'' @ [10], py ''http://x'' @ [10]]).
      py_startswith (py_upper l) (py ''#EXTINF'') \<longrightarrow>
      snd (parse_extinf_attrs (\<lambda>c. False) l) \<noteq> [] \<and> 44 \<notin> set (snd (parse_extinf_attrs (\<lambda>c. False) l))"
    unfolding n parsed_title by (simp add: t) (simp add: str_eval)
  then show ?thesis by (rule second_pass_on_plain_titles)
qed


end
